theory Spec2Isabelle
  imports Complex_Main
begin

section \<open>Errors and arrays\<close>

text \<open>
  Every \<^verbatim>\<open>raise\<close> and failed \<^verbatim>\<open>assert\<close> of the Python source is a value of
  \<open>error\<close>; a function that can raise returns \<open>error + 'a\<close> with \<open>Inl\<close> the exception.
  Floating-point numbers are read as exact reals.
\<close>

datatype error =
    AssertionError
  | ValueError
  | IndexError
  | TypeError
  | Exception nat

definition bind_err :: "error + 'a \<Rightarrow> ('a \<Rightarrow> error + 'b) \<Rightarrow> error + 'b" where
  "bind_err r f = (case r of Inl e \<Rightarrow> Inl e | Inr v \<Rightarrow> f v)"

text \<open>
  A two-dimensional \<^verbatim>\<open>np.ndarray\<close>: its shape and its entries. Entries outside the
  shape are never read by the model: every access that numpy would reject is an
  \<open>IndexError\<close> branch.
\<close>

record ndarray2 =
  nrow :: nat
  ncol :: nat
  entry :: "nat \<Rightarrow> nat \<Rightarrow> real"

definition of_rows :: "real list list \<Rightarrow> ndarray2" where
  "of_rows rs = \<lparr>nrow = length rs, ncol = (case rs of [] \<Rightarrow> 0 | r # _ \<Rightarrow> length r),
                 entry = (\<lambda>r c. rs ! r ! c)\<rparr>"

text \<open>\<^verbatim>\<open>matrix[:, cols]\<close>: the columns named by an index list, in that order.\<close>

definition take_cols :: "ndarray2 \<Rightarrow> nat list \<Rightarrow> error + ndarray2" where
  "take_cols m cols =
     (if list_all (\<lambda>c. c < ncol m) cols
      then Inr \<lparr>nrow = nrow m, ncol = length cols, entry = (\<lambda>r c. entry m r (cols ! c))\<rparr>
      else Inl IndexError)"

text \<open>\<^verbatim>\<open>matrix[rows, :][:, cols]\<close> for index lists as long as the matrix is wide.\<close>

definition reindex :: "ndarray2 \<Rightarrow> nat list \<Rightarrow> nat list \<Rightarrow> ndarray2" where
  "reindex m rows cols =
     \<lparr>nrow = length rows, ncol = length cols, entry = (\<lambda>r c. entry m (rows ! r) (cols ! c))\<rparr>"

section \<open>Slater determinants as bit masks\<close>

text \<open>
  Modelled from the spec: the module \<^verbatim>\<open>slater_det\<close> (\<^verbatim>\<open>is_occupied\<close>,
  \<^verbatim>\<open>is_pair_occupied\<close>, \<^verbatim>\<open>excite_orbs\<close>, \<^verbatim>\<open>excite_pairs\<close>) is imported by
  \<^verbatim>\<open>geminal.py\<close> but only its tests are at hand. A determinant is a non-negative
  integer, bit \<open>2i\<close> the alpha and bit \<open>2i+1\<close> the beta spin orbital of spatial orbital
  \<open>i\<close>. Removing an unoccupied orbital, or adding an occupied one, gives the sentinel
  \<open>0\<close>; an excitation removes the first half of its indices and then adds the second
  half. Internally \<open>None\<close> stands for "invalid", so that the empty determinant reached
  by a valid removal is still excitable, as \<^verbatim>\<open>excite(0b0001, 0, 1) == 0b10\<close> requires.
\<close>

definition is_occupied :: "nat \<Rightarrow> nat \<Rightarrow> bool" where
  "is_occupied sd i = bit sd i"

definition is_pair_occupied :: "nat \<Rightarrow> nat \<Rightarrow> bool" where
  "is_pair_occupied sd i = (is_occupied sd (2 * i) \<and> is_occupied sd (2 * i + 1))"

fun remove_list :: "nat \<Rightarrow> nat list \<Rightarrow> nat option" where
  "remove_list sd [] = Some sd"
| "remove_list sd (i # is) =
     (if is_occupied sd i then remove_list (unset_bit i sd) is else None)"

fun add_list :: "nat \<Rightarrow> nat list \<Rightarrow> nat option" where
  "add_list sd [] = Some sd"
| "add_list sd (i # is) =
     (if is_occupied sd i then None else add_list (set_bit i sd) is)"

definition remove_orbs :: "nat \<Rightarrow> nat list \<Rightarrow> nat" where
  "remove_orbs sd indices = (case remove_list sd indices of None \<Rightarrow> 0 | Some s \<Rightarrow> s)"

definition add_orbs :: "nat \<Rightarrow> nat list \<Rightarrow> nat" where
  "add_orbs sd indices = (case add_list sd indices of None \<Rightarrow> 0 | Some s \<Rightarrow> s)"

definition excite_orbs :: "nat \<Rightarrow> nat list \<Rightarrow> nat" where
  "excite_orbs sd indices =
     (let halfway = length indices div 2 in
      case remove_list sd (take halfway indices) of
        None \<Rightarrow> 0
      | Some s \<Rightarrow> (case add_list s (drop halfway indices) of None \<Rightarrow> 0 | Some t \<Rightarrow> t))"

definition spin_pairs :: "nat list \<Rightarrow> nat list" where
  "spin_pairs indices = concat (map (\<lambda>i. [2 * i, 2 * i + 1]) indices)"

definition excite_pairs :: "nat \<Rightarrow> nat list \<Rightarrow> nat" where
  "excite_pairs sd indices =
     (let halfway = length indices div 2 in
      case remove_list sd (spin_pairs (take halfway indices)) of
        None \<Rightarrow> 0
      | Some s \<Rightarrow>
          (case add_list s (spin_pairs (drop halfway indices)) of None \<Rightarrow> 0 | Some t \<Rightarrow> t))"

text \<open>\<^verbatim>\<open>bin(sd).count('1')\<close>: the number of electrons.\<close>

fun popcount :: "nat \<Rightarrow> nat" where
  "popcount n = (if n = 0 then 0 else n mod 2 + popcount (n div 2))"

declare popcount.simps [simp del]

section \<open>Permanents of \<^verbatim>\<open>geminal.py\<close>\<close>

text \<open>
  \<^verbatim>\<open>itertools.permutations(xs)\<close>: all orderings of \<open>xs\<close>, in lexicographic order of
  positions.
\<close>

definition without_pos :: "nat \<Rightarrow> 'a list \<Rightarrow> 'a list" where
  "without_pos i xs = take i xs @ drop (Suc i) xs"

lemma length_without_pos [simp]:
  "i < length xs \<Longrightarrow> length (without_pos i xs) = length xs - 1"
  by (simp add: without_pos_def)

function permutations :: "'a list \<Rightarrow> 'a list list" where
  "permutations xs =
     (if xs = [] then [[]]
      else concat (map (\<lambda>i. map ((#) (xs ! i)) (permutations (without_pos i xs)))
                       [0..<length xs]))"
  by pat_completeness auto
termination
  by (relation "measure length") (auto simp: Suc_le_eq)

declare permutations.simps [simp del]

text \<open>
  \<^verbatim>\<open>APIG.permanent\<close>: the sum over all column permutations of the products
  \<^verbatim>\<open>matrix[row_indices, col_indices]\<close>.
\<close>

definition permanent :: "ndarray2 \<Rightarrow> error + real" where
  "permanent matrix =
     (if nrow matrix \<noteq> ncol matrix then Inl AssertionError
      else let row_indices = [0..<nrow matrix] in
        Inr (\<Sum>col_indices \<leftarrow> permutations row_indices.
               (\<Prod>(r, c) \<leftarrow> zip row_indices col_indices. entry matrix r c)))"

text \<open>
  \<^verbatim>\<open>APIG.permanent_derivative\<close>: row \<open>i\<close> and column \<open>j\<close> are exchanged with row and
  column \<open>0\<close>, then the two wrap-around diagonals of rows \<open>1 ..\<close> are multiplied up.
  The exchange \<^verbatim>\<open>rows[0], rows[i] = rows[i], rows[0]\<close> raises IndexError when \<open>i\<close>
  is out of range. The counter \<open>left\<close> is a natural number here; Python's \<open>-1\<close> for an
  empty matrix is never used as an index because the loop does not run then.
\<close>

definition swap0 :: "nat list \<Rightarrow> nat \<Rightarrow> error + nat list" where
  "swap0 xs i =
     (if i \<noteq> 0 then
        (if i < length xs then Inr (xs[0 := xs ! i, i := xs ! 0]) else Inl IndexError)
      else Inr xs)"

fun diag_loop :: "ndarray2 \<Rightarrow> nat list \<Rightarrow> nat \<times> nat \<times> real \<times> real \<Rightarrow> real \<times> real" where
  "diag_loop m [] (left, right, prod_l, prod_r) = (prod_l, prod_r)"
| "diag_loop m (row # rest) (left, right, prod_l, prod_r) =
     diag_loop m rest (left - 1, right + 1, prod_l * entry m row left, prod_r * entry m row right)"

definition permanent_derivative :: "ndarray2 \<Rightarrow> nat \<Rightarrow> nat \<Rightarrow> error + real" where
  "permanent_derivative matrix i j =
     (if nrow matrix \<noteq> ncol matrix then Inl AssertionError
      else
        bind_err (swap0 [0..<nrow matrix] i) (\<lambda>rows.
        bind_err (swap0 [0..<ncol matrix] j) (\<lambda>cols.
          let (prod_l, prod_r) =
                diag_loop (reindex matrix rows cols) [1..<nrow matrix]
                  (ncol matrix - 1, 1, 1, 1)
          in Inr (prod_l + prod_r))))"

section \<open>The APIG wavefunction\<close>

text \<open>
  The fields of an \<^verbatim>\<open>APIG\<close> object that the modelled methods read. The integrals
  \<open>one\<close> and \<open>two\<close> are total functions of their indices: the \<^verbatim>\<open>ham\<close> setter has
  checked their shapes against \<open>norbs\<close>, and every index the methods use is below
  \<open>norbs\<close>.
\<close>

record wfn =
  npairs :: nat
  norbs :: nat
  one :: "nat \<Rightarrow> nat \<Rightarrow> real"
  two :: "nat \<Rightarrow> nat \<Rightarrow> nat \<Rightarrow> nat \<Rightarrow> real"
  pspace :: "nat list"

definition nelec :: "'a wfn_scheme \<Rightarrow> nat" where
  "nelec self = 2 * npairs self"

definition ground :: "'a wfn_scheme \<Rightarrow> nat" where
  "ground self = 2 ^ (2 * npairs self) - 1"

text \<open>\<^verbatim>\<open>ind_occ.index(j)\<close> for a \<open>j\<close> that is in the list: the first position holding it.\<close>

definition index_of :: "nat list \<Rightarrow> nat \<Rightarrow> nat" where
  "index_of ind j = length (takeWhile (\<lambda>c. c \<noteq> j) ind)"

text \<open>
  \<^verbatim>\<open>APIG.overlap(slater_det, gem_coeff, derivative, indices)\<close>. The determinant
  argument is \<open>None\<close> for Python's \<^verbatim>\<open>None\<close>.
\<close>

definition APIG_overlap ::
  "'a wfn_scheme \<Rightarrow> nat option \<Rightarrow> ndarray2 \<Rightarrow> bool \<Rightarrow> (nat \<times> nat) option \<Rightarrow> error + real" where
  "APIG_overlap self slater_det gem_coeff derivative indices =
     (case slater_det of
        None \<Rightarrow> Inr 0
      | Some sd \<Rightarrow>
          if popcount sd \<noteq> nelec self then Inr 0
          else if list_ex (\<lambda>i. is_occupied sd (i * 2) \<noteq> is_occupied sd (i * 2 + 1))
                    [0..<norbs self]
          then Inr 0
          else
            let ind_occ = filter (is_pair_occupied sd) [0..<norbs self] in
            if derivative then
              (case indices of
                 None \<Rightarrow> Inl TypeError
               | Some (i, j) \<Rightarrow>
                   if j \<in> set ind_occ then
                     bind_err (take_cols gem_coeff ind_occ) (\<lambda>sub.
                     bind_err (permanent_derivative sub i (index_of ind_occ j)) (\<lambda>d.
                       Inr (d / 2)))
                   else Inr 0)
            else bind_err (take_cols gem_coeff ind_occ) permanent)"

section \<open>The overlap of \<^verbatim>\<open>prowl/lib/apig.py\<close>\<close>

text \<open>
  Modelled from the spec: \<^verbatim>\<open>slater.number\<close>, \<^verbatim>\<open>slater.occupation\<close>,
  \<^verbatim>\<open>slater.occupation_pair\<close> and \<^verbatim>\<open>permanent.dense\<close> of \<^verbatim>\<open>prowl.utils\<close> are not
  at hand; they are the electron count, the occupation tests and the permanent of
  the spec, so the model reuses \<open>popcount\<close>, \<open>is_occupied\<close>, \<open>is_pair_occupied\<close> and
  \<open>permanent\<close>. The object carries \<^verbatim>\<open>self.n\<close> electrons, \<^verbatim>\<open>self.k\<close> spatial orbitals and
  the coefficient matrix \<^verbatim>\<open>self.C\<close>.
\<close>

record prowl_wfn =
  prowl_n :: nat
  prowl_k :: nat
  prowl_C :: ndarray2

definition prowl_overlap :: "prowl_wfn \<Rightarrow> nat option \<Rightarrow> error + real" where
  "prowl_overlap self sd_opt =
     (case sd_opt of
        None \<Rightarrow> Inr 0
      | Some sd \<Rightarrow>
          if popcount sd \<noteq> prowl_n self then Inr 0
          else if list_ex (\<lambda>i. is_occupied sd (2 * i) \<noteq> is_occupied sd (2 * i + 1)) [0..<prowl_k self]
          then Inr 0
          else
            let occ = filter (is_pair_occupied sd) [0..<prowl_k self] in
            bind_err (take_cols (prowl_C self) occ) permanent)"

section \<open>The AP1roG wavefunction\<close>

text \<open>Indexing that raises IndexError: \<^verbatim>\<open>xs[i]\<close> of a list and \<^verbatim>\<open>matrix[r, c]\<close>.\<close>

definition item :: "'a list \<Rightarrow> nat \<Rightarrow> error + 'a" where
  "item xs i = (if i < length xs then Inr (xs ! i) else Inl IndexError)"

definition get :: "ndarray2 \<Rightarrow> nat \<Rightarrow> nat \<Rightarrow> error + real" where
  "get m r c = (if r < nrow m \<and> c < ncol m then Inr (entry m r c) else Inl IndexError)"

text \<open>
  \<^verbatim>\<open>AP1roG.generate_pspace\<close>. The list \<^verbatim>\<open>pspace\<close> is built in a fixed order: the
  reference, then for every virtual orbital the pair excitations from each occupied
  one. The method returns \<^verbatim>\<open>tuple(set(pspace))\<close>: Python fixes the elements of that
  tuple but not their order, which is the iteration order of the set (CPython walks the
  hash table: for \<open>{3, 12, 48}\<close> the keys sit in slots 3, 4 and 0 of eight, so the
  tuple is \<open>(48, 3, 12)\<close>). The model is therefore a relation between the object and
  the tuples that set semantics allows.
\<close>

definition AP1roG_base :: "'a wfn_scheme \<Rightarrow> nat" where
  "AP1roG_base self = (\<Sum>i\<leftarrow>[0..<npairs self]. 2 ^ (2 * i) + 2 ^ (2 * i + 1))"

definition AP1roG_pspace_list :: "'a wfn_scheme \<Rightarrow> nat list" where
  "AP1roG_pspace_list self =
     (let base = AP1roG_base self in
      base # concat (map (\<lambda>unoccup. map (\<lambda>i. excite_pairs base [i, unoccup]) [0..<npairs self])
                         [npairs self..<norbs self]))"

definition tuple_of_set :: "nat list \<Rightarrow> nat list \<Rightarrow> bool" where
  "tuple_of_set xs t = (distinct t \<and> set t = set xs)"

definition AP1roG_generate_pspace :: "'a wfn_scheme \<Rightarrow> nat list \<Rightarrow> bool" where
  "AP1roG_generate_pspace self t = tuple_of_set (AP1roG_pspace_list self) t"

text \<open>
  \<^verbatim>\<open>AP1roG.overlap(phi, matrix, derivative, indices)\<close>. The two loops collect the
  reference orbitals that \<open>phi\<close> has emptied and the virtual orbitals it has filled;
  \<open>excite_count\<close> is the number of the former.
\<close>

definition AP1roG_from_index :: "'a wfn_scheme \<Rightarrow> nat \<Rightarrow> nat list" where
  "AP1roG_from_index self phi = filter (\<lambda>i. \<not> is_pair_occupied phi i) [0..<npairs self]"

definition AP1roG_to_index :: "'a wfn_scheme \<Rightarrow> nat \<Rightarrow> nat list" where
  "AP1roG_to_index self phi = filter (is_pair_occupied phi) [npairs self..<norbs self]"

definition AP1roG_overlap ::
  "'a wfn_scheme \<Rightarrow> nat option \<Rightarrow> ndarray2 \<Rightarrow> bool \<Rightarrow> (nat \<times> nat) option \<Rightarrow> error + real" where
  "AP1roG_overlap self phi_arg matrix derivative indices =
     (case phi_arg of
        None \<Rightarrow> Inr 0
      | Some phi \<Rightarrow>
          if phi = 0 then Inr 0
          else if phi \<notin> set (pspace self) then Inr 0
          else
            let from_index = AP1roG_from_index self phi;
                excite_count = length from_index;
                to_index = AP1roG_to_index self phi
            in
            if excite_count = 0 then
              (if derivative then
                 (case indices of
                    None \<Rightarrow> Inl TypeError
                  | Some (i, j) \<Rightarrow> if i = j then Inr 1 else Inr 0)
               else Inr 1)
            else if excite_count = 1 then
              bind_err (item from_index 0) (\<lambda>f0.
              bind_err (item to_index 0) (\<lambda>t0.
                if derivative then (if indices = Some (f0, t0) then Inr 1 else Inr 0)
                else get matrix f0 t0))
            else if excite_count = 2 then
              (if derivative then
                 bind_err (item from_index 0) (\<lambda>f0.
                 bind_err (item to_index 0) (\<lambda>t0.
                 if indices = Some (f0, t0) then
                   bind_err (item from_index 1) (\<lambda>f1.
                   bind_err (item to_index 1) (\<lambda>t1. get matrix f1 t1))
                 else
                   bind_err (item from_index 1) (\<lambda>f1.
                   bind_err (item to_index 1) (\<lambda>t1.
                   if indices = Some (f1, t1) then get matrix f0 t0
                   else if indices = Some (f0, t1) then
                     bind_err (get matrix f1 t0) (\<lambda>v. Inr (- v))
                   else if indices = Some (f1, t0) then
                     bind_err (get matrix f0 t1) (\<lambda>v. Inr (- v))
                   else Inr 0))))
               else
                 bind_err (item from_index 0) (\<lambda>f0.
                 bind_err (item to_index 0) (\<lambda>t0.
                 bind_err (get matrix f0 t0) (\<lambda>a.
                 bind_err (item from_index 1) (\<lambda>f1.
                 bind_err (item to_index 1) (\<lambda>t1.
                 bind_err (get matrix f1 t1) (\<lambda>b.
                 bind_err (get matrix f0 t1) (\<lambda>c.
                 bind_err (get matrix f1 t0) (\<lambda>d.
                   Inr (a * b - c * d))))))))))
            else Inl (Exception excite_count))"

text \<open>The determinant with pair \<open>i\<close> cleared and pair \<open>a\<close> set, as a bit expression.\<close>

definition pair_moved :: "nat \<Rightarrow> nat \<Rightarrow> nat \<Rightarrow> nat" where
  "pair_moved sd i a = set_bit (2 * a + 1) (set_bit (2 * a) (unset_bit (2 * i + 1) (unset_bit (2 * i) sd)))"

section \<open>The projection space of APIG\<close>

text \<open>
  \<^verbatim>\<open>itertools.combinations(xs, r)\<close>: the \<open>r\<close>-element sublists of \<open>xs\<close>, in lexicographic
  order of positions.
\<close>

fun combinations :: "'a list \<Rightarrow> nat \<Rightarrow> 'a list list" where
  "combinations xs 0 = [[]]"
| "combinations [] (Suc r) = []"
| "combinations (x # xs) (Suc r) = map ((#) x) (combinations xs r) @ combinations xs (Suc r)"

text \<open>
  \<^verbatim>\<open>num_combs\<close> of \<^verbatim>\<open>APIG.generate_pspace\<close>: the quotient of factorials, read exactly
  (the source computes it in floating point).
\<close>

definition num_combs :: "nat \<Rightarrow> nat \<Rightarrow> nat" where
  "num_combs m r = fact m div fact r div fact (m - r)"

text \<open>
  The \<^verbatim>\<open>for ... else\<close> that picks the number of frontier orbitals for the determinants
  still needed.
\<close>

definition num_frontier_of :: "nat list \<Rightarrow> nat list \<Rightarrow> nat \<Rightarrow> nat" where
  "num_frontier_of ind_occ ind_vir remaining =
     (case find (\<lambda>i. (num_combs i 2)\<^sup>2 \<ge> remaining) [2..<length ind_occ + 1] of
        Some i \<Rightarrow> i
      | None \<Rightarrow> max (length ind_occ) (length ind_vir) + 1)"

text \<open>The \<^verbatim>\<open>while\<close> loop that appends the pair excitations of growing rank.\<close>

function pair_excitation_loop ::
  "nat \<Rightarrow> nat list \<Rightarrow> nat list \<Rightarrow> nat \<Rightarrow> nat list \<Rightarrow> nat \<Rightarrow> nat list" where
  "pair_excitation_loop hf_ground ind_occ ind_vir num_needed list_sd num_excited =
     (if length list_sd < num_needed \<and> num_excited \<le> length ind_occ then
        let num_frontier = num_frontier_of ind_occ ind_vir (num_needed - length list_sd);
            new = concat (map (\<lambda>occs.
                    map (\<lambda>virs. excite_pairs hf_ground (occs @ virs))
                        (combinations (take num_frontier ind_vir) num_excited))
                    (combinations (take num_frontier ind_occ) num_excited))
        in pair_excitation_loop hf_ground ind_occ ind_vir num_needed (list_sd @ new)
             (num_excited + 1)
      else list_sd)"
  by pat_completeness auto
termination
  by (relation "measure (\<lambda>(hf_ground, ind_occ, ind_vir, num_needed, list_sd, num_excited).
        length ind_occ + 1 - num_excited)") auto

declare pair_excitation_loop.simps [simp del]

text \<open>
  \<^verbatim>\<open>APIG.generate_pspace\<close>. \<^verbatim>\<open>int('1'*2*npairs, 2)\<close> raises ValueError for the empty
  string; the two assertions are the \<open>AssertionError\<close> branches.
\<close>

definition APIG_generate_pspace :: "'a wfn_scheme \<Rightarrow> error + nat list" where
  "APIG_generate_pspace self =
     (if npairs self = 0 then Inl ValueError
      else
        let hf_ground = 2 ^ (2 * npairs self) - 1;
            ind_occ = rev (filter (is_pair_occupied hf_ground) [0..<norbs self]);
            ind_vir = filter (\<lambda>i. \<not> is_pair_occupied hf_ground i) [0..<norbs self];
            num_needed = npairs self * norbs self + 1;
            list_sd = pair_excitation_loop hf_ground ind_occ ind_vir num_needed [hf_ground] 1;
            list_sd =
              (if npairs self \<le> 2 then
                 list_sd @ concat (map (\<lambda>i.
                   map (\<lambda>j. excite_orbs hf_ground [i * 2 + 1, j * 2]) ind_vir) ind_occ)
               else list_sd)
        in
        if length list_sd \<noteq> card (set list_sd) then Inl AssertionError
        else if \<not> length list_sd \<ge> num_needed then Inl AssertionError
        else Inr (take num_needed list_sd))"

text \<open>
  The determinant obtained by deleting row \<open>i\<close> and column \<open>j\<close>: the minor that the
  documentation of \<^verbatim>\<open>permanent_derivative\<close> and the specification name.
\<close>

definition minor_of :: "ndarray2 \<Rightarrow> nat \<Rightarrow> nat \<Rightarrow> ndarray2" where
  "minor_of m i j =
     \<lparr>nrow = nrow m - 1, ncol = ncol m - 1,
      entry = (\<lambda>r c. entry m (if r < i then r else r + 1) (if c < j then c else c + 1))\<rparr>"

section \<open>The Hamiltonian integrator\<close>

text \<open>
  A loop whose body can raise: the state is threaded through the list, and the first
  exception ends the loop.
\<close>

fun fold_err :: "('a \<Rightarrow> 's \<Rightarrow> error + 's) \<Rightarrow> 'a list \<Rightarrow> 's \<Rightarrow> error + 's" where
  "fold_err f [] s = Inr s"
| "fold_err f (x # xs) s = bind_err (f x s) (fold_err f xs)"

text \<open>
  \<^verbatim>\<open>bin(slater_det)[2:]\<close>, most significant digit first, and the slices \<^verbatim>\<open>s[0::2]\<close>
  and \<^verbatim>\<open>s[1::2]\<close> with which \<^verbatim>\<open>phi_H_psi\<close> compares the alpha and beta occupations.
\<close>

fun bin_digits :: "nat \<Rightarrow> bool list" where
  "bin_digits m = (if m < 2 then [m = 1] else bin_digits (m div 2) @ [odd m])"

declare bin_digits.simps [simp del]

fun every_other :: "'a list \<Rightarrow> 'a list" where
  "every_other [] = []"
| "every_other [x] = [x]"
| "every_other (x # y # zs) = x # every_other zs"

definition alpha_beta_equal :: "nat \<Rightarrow> bool" where
  "alpha_beta_equal slater_det =
     (let bin_string = bin_digits slater_det;
          bin_string = replicate (length bin_string mod 2) False @ bin_string;
          alpha_occ = every_other bin_string;
          beta_occ = every_other (tl bin_string)
      in alpha_occ = beta_occ)"

text \<open>
  The bound method \<^verbatim>\<open>self.overlap\<close> is a parameter \<open>olp\<close> of the integrators:
  \<^verbatim>\<open>nonlin_jac\<close> rebinds it to the derivative of the overlap. The three accumulators
  \<open>one_elec_part\<close>, \<open>coulomb\<close> and \<open>exchange\<close> are the loop state.
\<close>

type_synonym overlap_method = "nat option \<Rightarrow> ndarray2 \<Rightarrow> error + real"

definition double_phi_H_psi ::
  "overlap_method \<Rightarrow> 'a wfn_scheme \<Rightarrow> nat \<Rightarrow> ndarray2 \<Rightarrow> error + real" where
  "double_phi_H_psi overlap self slater_det gem_coeff =
     bind_err (overlap (Some slater_det) gem_coeff) (\<lambda>olp.
     bind_err
       (fold_err (\<lambda>i (one_elec_part, coulomb, exchange).
          if is_pair_occupied slater_det i then
            let one_elec_part = one_elec_part + 2 * one self i i * olp;
                coulomb = coulomb + two self i i i i * olp;
                (coulomb, exchange) =
                  fold (\<lambda>j (coulomb, exchange).
                      if is_pair_occupied slater_det j
                      then (coulomb + 4 * two self i j i j * olp,
                            exchange - 2 * two self i j j i * olp)
                      else (coulomb, exchange))
                    [i + 1..<norbs self] (coulomb, exchange)
            in
            bind_err
              (fold_err (\<lambda>a coulomb.
                 if \<not> is_pair_occupied slater_det a then
                   bind_err (overlap (Some (excite_pairs slater_det [i, a])) gem_coeff)
                     (\<lambda>v. Inr (coulomb + two self i i a a * v))
                 else Inr coulomb)
                [0..<norbs self] coulomb)
              (\<lambda>coulomb. Inr (one_elec_part, coulomb, exchange))
          else Inr (one_elec_part, coulomb, exchange))
        [0..<norbs self] (0, 0, 0))
       (\<lambda>(one_elec_part, coulomb, exchange). Inr (one_elec_part + coulomb + exchange)))"

text \<open>
  \<^verbatim>\<open>brute_phi_H_psi\<close>. The innermost body, for one quadruple \<open>(i, k, j, l)\<close>: a result of
  the overlap that is exactly zero skips the update.
\<close>

definition brute_l_body ::
  "overlap_method \<Rightarrow> 'a wfn_scheme \<Rightarrow> ndarray2 \<Rightarrow> nat \<Rightarrow> nat \<Rightarrow> nat \<Rightarrow> nat \<Rightarrow> nat \<Rightarrow>
   real \<times> real \<Rightarrow> error + real \<times> real" where
  "brute_l_body overlap self gem_coeff single_excitation i k j l =
     (\<lambda>(coulomb, exchange).
        let double_excitation = excite_orbs single_excitation [j, l] in
        bind_err (overlap (Some double_excitation) gem_coeff) (\<lambda>olp.
          if olp = 0 then Inr (coulomb, exchange)
          else
            let coulomb =
                  (if i mod 2 = k mod 2 \<and> j mod 2 = l mod 2
                   then coulomb + two self (i div 2) (j div 2) (k div 2) (l div 2) * olp
                   else coulomb);
                exchange =
                  (if i mod 2 = l mod 2 \<and> j mod 2 = k mod 2
                   then exchange - two self (i div 2) (j div 2) (l div 2) (k div 2) * olp
                   else exchange)
            in Inr (coulomb, exchange)))"

text \<open>The body of the loop over \<open>k\<close>; its state carries the counter \<open>ind_first_vir\<close>.\<close>

definition brute_k_body ::
  "overlap_method \<Rightarrow> 'a wfn_scheme \<Rightarrow> nat \<Rightarrow> ndarray2 \<Rightarrow> nat list \<Rightarrow> nat \<Rightarrow> nat list \<Rightarrow>
   nat \<Rightarrow> nat \<Rightarrow> real \<times> real \<times> real \<times> nat \<Rightarrow> error + real \<times> real \<times> real \<times> nat" where
  "brute_k_body overlap self slater_det gem_coeff ind_occ ind_first_occ temp1_ind_vir i k =
     (\<lambda>(one_elec_part, coulomb, exchange, ind_first_vir).
        let single_excitation = excite_orbs slater_det [i, k] in
        bind_err
          (if i mod 2 = k mod 2 then
             bind_err (overlap (Some single_excitation) gem_coeff) (\<lambda>v.
               Inr (one_elec_part + one self (i div 2) (k div 2) * v))
           else Inr one_elec_part)
          (\<lambda>one_elec_part.
        bind_err
          (fold_err (\<lambda>j (coulomb, exchange).
             let temp2_ind_vir = sort ([j] @ drop (ind_first_vir + 1) temp1_ind_vir) in
             fold_err (brute_l_body overlap self gem_coeff single_excitation i k j)
               temp2_ind_vir (coulomb, exchange))
            (drop (ind_first_occ + 1) ind_occ) (coulomb, exchange))
          (\<lambda>(coulomb, exchange).
             Inr (one_elec_part, coulomb, exchange, ind_first_vir + 1))))"

definition brute_phi_H_psi ::
  "overlap_method \<Rightarrow> 'a wfn_scheme \<Rightarrow> nat \<Rightarrow> ndarray2 \<Rightarrow> error + real" where
  "brute_phi_H_psi overlap self slater_det gem_coeff =
     (let ind_occ = filter (is_occupied slater_det) [0..<2 * norbs self];
          ind_vir = filter (\<lambda>i. \<not> is_occupied slater_det i) [0..<2 * norbs self]
      in
      bind_err
        (fold_err (\<lambda>i (one_elec_part, coulomb, exchange, ind_first_occ).
           let temp1_ind_vir = sort (ind_vir @ [i]) in
           bind_err
             (fold_err
                (brute_k_body overlap self slater_det gem_coeff ind_occ ind_first_occ
                   temp1_ind_vir i)
                temp1_ind_vir (one_elec_part, coulomb, exchange, 0))
             (\<lambda>(one_elec_part, coulomb, exchange, ind_first_vir).
                Inr (one_elec_part, coulomb, exchange, ind_first_occ + 1)))
          ind_occ (0, 0, 0, 0))
        (\<lambda>(one_elec_part, coulomb, exchange, ind_first_occ).
           Inr (one_elec_part + coulomb + exchange)))"

definition phi_H_psi ::
  "overlap_method \<Rightarrow> 'a wfn_scheme \<Rightarrow> nat \<Rightarrow> ndarray2 \<Rightarrow> error + real" where
  "phi_H_psi overlap self slater_det gem_coeff =
     (if alpha_beta_equal slater_det
      then double_phi_H_psi overlap self slater_det gem_coeff
      else brute_phi_H_psi overlap self slater_det gem_coeff)"

section \<open>The nonlinear system\<close>

text \<open>Item assignment \<^verbatim>\<open>vec[i] = v\<close> and \<^verbatim>\<open>jac[r, c] = v\<close>, with numpy's IndexError.\<close>

definition set_item :: "real list \<Rightarrow> nat \<Rightarrow> real \<Rightarrow> error + real list" where
  "set_item vec i v = (if i < length vec then Inr (vec[i := v]) else Inl IndexError)"

definition set_entry :: "ndarray2 \<Rightarrow> nat \<Rightarrow> nat \<Rightarrow> real \<Rightarrow> error + ndarray2" where
  "set_entry m r c v =
     (if r < nrow m \<and> c < ncol m
      then Inr (m\<lparr>entry := (entry m)(r := (entry m r)(c := v))\<rparr>)
      else Inl IndexError)"

text \<open>
  \<^verbatim>\<open>APIG.construct_guess\<close>: \<^verbatim>\<open>x0.reshape(npairs, norbs)\<close>, a ValueError when the size
  does not fit.
\<close>

definition construct_guess :: "'a wfn_scheme \<Rightarrow> real list \<Rightarrow> error + ndarray2" where
  "construct_guess self x0 =
     (if length x0 = npairs self * norbs self
      then Inr \<lparr>nrow = npairs self, ncol = norbs self,
                entry = (\<lambda>r c. x0 ! (r * norbs self + c))\<rparr>
      else Inl ValueError)"

text \<open>
  \<^verbatim>\<open>APIG.nonlin(x0, proj)\<close>, for the class APIG: \<^verbatim>\<open>_normalize\<close> is true, so
  \<open>eqn_offset\<close> is \<open>1\<close> and the component \<open>0\<close> is the normalisation equation.
\<close>

definition APIG_nonlin :: "'a wfn_scheme \<Rightarrow> real list \<Rightarrow> nat list \<Rightarrow> error + real list" where
  "APIG_nonlin self x0 proj =
     (let overlap = (\<lambda>sd gc. APIG_overlap self sd gc False None);
          eqn_offset = 1
      in
      bind_err (construct_guess self x0) (\<lambda>C.
      bind_err (phi_H_psi overlap self (ground self) C) (\<lambda>energy.
      bind_err (overlap (Some (ground self)) C) (\<lambda>v.
      bind_err (set_item (replicate (length x0) 0) 0 (v - 1)) (\<lambda>vec.
      fold_err (\<lambda>d vec.
          bind_err (item proj d) (\<lambda>sd.
          bind_err (overlap (Some sd) C) (\<lambda>olp.
          bind_err (phi_H_psi overlap self sd C) (\<lambda>h.
            set_item vec (d + eqn_offset) (energy * olp - h)))))
        [0..<length x0 - eqn_offset] vec)))))"

text \<open>
  \<^verbatim>\<open>APIG.nonlin_jac(x0, proj)\<close>. For every coefficient \<open>(i, j)\<close> the method
  \<^verbatim>\<open>self.overlap\<close> is rebound to \<open>olp_der\<close>, the overlap in derivative mode with
  respect to that coefficient, and the column \<open>count\<close> of the Jacobian is filled.
\<close>

definition jac_column ::
  "'a wfn_scheme \<Rightarrow> ndarray2 \<Rightarrow> nat list \<Rightarrow> real \<Rightarrow> real list \<Rightarrow> nat \<Rightarrow> nat \<Rightarrow> nat \<Rightarrow>
   ndarray2 \<times> nat \<Rightarrow> error + ndarray2 \<times> nat" where
  "jac_column self C proj energy phi_psi_tmp x0_size i j =
     (\<lambda>(jac, count).
        let olp_der = (\<lambda>sd gc. APIG_overlap self sd gc True (Some (i, j)));
            eqn_offset = 1
        in
        bind_err (olp_der (Some (ground self)) C) (\<lambda>v.
        bind_err (set_entry jac 0 count v) (\<lambda>jac.
        bind_err
          (fold_err (\<lambda>d jac.
              bind_err (phi_H_psi olp_der self (ground self) C) (\<lambda>d_energy.
              bind_err (item phi_psi_tmp d) (\<lambda>olp.
              bind_err (item proj d) (\<lambda>sd.
              bind_err (olp_der (Some sd) C) (\<lambda>d_olp.
              bind_err (phi_H_psi olp_der self sd C) (\<lambda>d_h.
                set_entry jac (d + eqn_offset) count
                  (d_energy * olp + energy * d_olp - d_h)))))))
            [0..<x0_size - eqn_offset] jac)
          (\<lambda>jac. Inr (jac, count + 1)))))"

definition APIG_nonlin_jac :: "'a wfn_scheme \<Rightarrow> real list \<Rightarrow> nat list \<Rightarrow> error + ndarray2" where
  "APIG_nonlin_jac self x0 proj =
     (let overlap = (\<lambda>sd gc. APIG_overlap self sd gc False None);
          x0_size = length x0;
          jac = \<lparr>nrow = x0_size, ncol = x0_size, entry = (\<lambda>r c. 0)\<rparr>
      in
      bind_err (construct_guess self x0) (\<lambda>C.
      bind_err (phi_H_psi overlap self (ground self) C) (\<lambda>energy.
      bind_err
        (fold_err (\<lambda>d phi_psi_tmp.
            bind_err (item proj d) (\<lambda>sd.
            bind_err (overlap (Some sd) C) (\<lambda>olp. set_item phi_psi_tmp d olp)))
          [0..<x0_size] (replicate x0_size 0))
        (\<lambda>phi_psi_tmp.
      bind_err
        (fold_err (\<lambda>i.
            fold_err (jac_column self C proj energy phi_psi_tmp x0_size i) [0..<norbs self])
          [0..<npairs self] (jac, 0))
        (\<lambda>(jac, count). Inr jac)))))"

section \<open>Running the solver\<close>

text \<open>
  \<^verbatim>\<open>APIG.__call__\<close>. The object is the wavefunction together with its stored
  coefficients and the lines it has printed. The root finder of scipy, the method
  \<^verbatim>\<open>generate_guess\<close> (which builds and solves an AP1roG wavefunction) and the verbose
  report are outside this development and are parameters; the solver options are
  only handed on to the root finder. An exception leaves the object as it was at the
  point of the raise.
\<close>

record solver_result =
  res_success :: bool
  res_x :: "real list"

record call_kwargs =
  kw_x0 :: "real list option"
  kw_jac :: bool
  kw_proj :: "nat list"
  kw_verbose :: bool

record apig = wfn +
  coeffs :: "ndarray2 option"
  printed :: "string list"

type_synonym root_finder =
  "(real list \<Rightarrow> nat list \<Rightarrow> error + real list) \<Rightarrow> real list \<Rightarrow>
   (real list \<Rightarrow> nat list \<Rightarrow> error + ndarray2) option \<Rightarrow> nat list \<Rightarrow> error + solver_result"

definition coeffs_setter :: "apig \<Rightarrow> real list \<Rightarrow> error + apig" where
  "coeffs_setter self val =
     (if length val = npairs self * norbs self
      then Inr (self\<lparr>coeffs := Some \<lparr>nrow = npairs self, ncol = norbs self,
                                       entry = (\<lambda>r c. val ! (r * norbs self + c))\<rparr>\<rparr>)
      else Inl AssertionError)"

definition call_x0 :: "error + real list \<Rightarrow> call_kwargs \<Rightarrow> error + real list" where
  "call_x0 generate_guess kw = (case kw_x0 kw of None \<Rightarrow> generate_guess | Some x0 \<Rightarrow> Inr x0)"

definition call_proj :: "apig \<Rightarrow> call_kwargs \<Rightarrow> error + nat list" where
  "call_proj self kw =
     (if kw_proj kw = [] then
        (if ground self \<in> set (pspace self) then Inr (remove1 (ground self) (pspace self))
         else Inl ValueError)
      else Inr (kw_proj kw))"

definition not_converged :: string where
  "not_converged = ''Warning: solution did not converge; coefficients were not updated.''"

definition APIG_call ::
  "root_finder \<Rightarrow> error + real list \<Rightarrow> (solver_result \<Rightarrow> error + string list) \<Rightarrow>
   apig \<Rightarrow> call_kwargs \<Rightarrow> apig \<times> (error + solver_result)" where
  "APIG_call scipy_root generate_guess report self kw =
     (case call_x0 generate_guess kw of
        Inl e \<Rightarrow> (self, Inl e)
      | Inr x0 \<Rightarrow>
          let jac = (if kw_jac kw then Some (APIG_nonlin_jac self) else None) in
          (case call_proj self kw of
             Inl e \<Rightarrow> (self, Inl e)
           | Inr proj \<Rightarrow>
               if length proj < length x0 then (self, Inl ValueError)
               else
                 (case scipy_root (APIG_nonlin self) x0 jac proj of
                    Inl e \<Rightarrow> (self, Inl e)
                  | Inr result \<Rightarrow>
                      (case (if res_success result then coeffs_setter self (res_x result)
                             else Inr (self\<lparr>printed := printed self @ [not_converged]\<rparr>)) of
                         Inl e \<Rightarrow> (self, Inl e)
                       | Inr self \<Rightarrow>
                           if kw_verbose kw then
                             (case report result of
                                Inl e \<Rightarrow> (self, Inl e)
                              | Inr lines \<Rightarrow>
                                  (self\<lparr>printed := printed self @ lines\<rparr>, Inr result))
                           else (self, Inr result)))))"

text \<open>The sum of \<open>t x rest\<close> over the elements \<open>x\<close> of a list, \<open>rest\<close> being what follows \<open>x\<close>.\<close>

fun suffix_sum :: "('a \<Rightarrow> 'a list \<Rightarrow> real) \<Rightarrow> 'a list \<Rightarrow> real" where
  "suffix_sum t [] = 0"
| "suffix_sum t (x # rest) = t x rest + suffix_sum t rest"

text \<open>
  What the closed-shell path adds up, for an overlap that returns \<open>w d\<close> on the
  determinant \<open>d\<close>.
\<close>

definition double_sum :: "(nat \<Rightarrow> real) \<Rightarrow> 'a wfn_scheme \<Rightarrow> nat \<Rightarrow> real" where
  "double_sum w self sd =
     (\<Sum>i\<leftarrow>[0..<norbs self].
        if is_pair_occupied sd i then
          2 * one self i i * w sd + two self i i i i * w sd
          + (\<Sum>j\<leftarrow>[i + 1..<norbs self].
               if is_pair_occupied sd j then 4 * two self i j i j * w sd else 0)
          - (\<Sum>j\<leftarrow>[i + 1..<norbs self].
               if is_pair_occupied sd j then 2 * two self i j j i * w sd else 0)
          + (\<Sum>a\<leftarrow>[0..<norbs self].
               if \<not> is_pair_occupied sd a
               then two self i i a a * w (excite_pairs sd [i, a]) else 0)
        else 0)"

text \<open>What the brute-force path adds up, term by term of its four nested loops.\<close>

definition brute_term ::
  "(nat \<Rightarrow> real) \<Rightarrow> 'a wfn_scheme \<Rightarrow> nat \<Rightarrow> nat \<Rightarrow> nat \<Rightarrow> nat \<Rightarrow> nat \<Rightarrow> real" where
  "brute_term w self single i k j l =
     (let d = excite_orbs single [j, l] in
      (if i mod 2 = k mod 2 \<and> j mod 2 = l mod 2
       then two self (i div 2) (j div 2) (k div 2) (l div 2) * w d else 0)
      - (if i mod 2 = l mod 2 \<and> j mod 2 = k mod 2
         then two self (i div 2) (j div 2) (l div 2) (k div 2) * w d else 0))"

definition brute_k_term ::
  "(nat \<Rightarrow> real) \<Rightarrow> 'a wfn_scheme \<Rightarrow> nat \<Rightarrow> nat list \<Rightarrow> nat \<Rightarrow> nat \<Rightarrow> nat list \<Rightarrow> real" where
  "brute_k_term w self sd rest_occ i k rest_k =
     (let single = excite_orbs sd [i, k] in
      (if i mod 2 = k mod 2 then one self (i div 2) (k div 2) * w single else 0)
      + (\<Sum>j\<leftarrow>rest_occ. \<Sum>l\<leftarrow>sort (j # rest_k). brute_term w self single i k j l))"

definition brute_sum :: "(nat \<Rightarrow> real) \<Rightarrow> 'a wfn_scheme \<Rightarrow> nat \<Rightarrow> real" where
  "brute_sum w self sd =
     (let ind_occ = filter (is_occupied sd) [0..<2 * norbs self];
          ind_vir = filter (\<lambda>i. \<not> is_occupied sd i) [0..<2 * norbs self]
      in suffix_sum (\<lambda>i rest_occ.
           suffix_sum (brute_k_term w self sd rest_occ i) (sort (ind_vir @ [i]))) ind_occ)"

text \<open>The other spin orbital of the same spatial orbital.\<close>

definition partner :: "nat \<Rightarrow> nat" where
  "partner m = (if even m then m + 1 else m - 1)"

text \<open>A determinant in which orbital \<open>i\<close> has been emptied and orbital \<open>k\<close> filled.\<close>

definition orb_moved :: "nat \<Rightarrow> nat \<Rightarrow> nat \<Rightarrow> nat" where
  "orb_moved sd i k = set_bit k (unset_bit i sd)"

text \<open>
  A wavefunction of three pairs in three orbitals with a Hamiltonian that vanishes: the
  energy and every projected equation are zero, and the residual is the normalisation
  equation alone.
\<close>

definition S33 :: wfn where
  "S33 = \<lparr>npairs = 3, norbs = 3, one = (\<lambda>p q. 0), two = (\<lambda>p q r s. 0), pspace = [63]\<rparr>"

text \<open>
  The sum of \<^verbatim>\<open>APIG.permanent\<close> for a matrix given by its entries, with the rows and the
  columns that remain as lists: the permanent of the rows \<open>rows\<close> and the columns \<open>cols\<close>.
\<close>

definition perm_sum :: "(nat \<Rightarrow> nat \<Rightarrow> real) \<Rightarrow> nat list \<Rightarrow> nat list \<Rightarrow> real" where
  "perm_sum f rows cols = (\<Sum>p \<leftarrow> permutations cols. (\<Prod>(r, c) \<leftarrow> zip rows p. f r c))"

text \<open>
  The setter of \<^verbatim>\<open>AP1roG.coeffs\<close>: the assertion on the number of coefficients, then
  \<^verbatim>\<open>np.eye(npairs, M=norbs)\<close> with the block \<^verbatim>\<open>value.reshape(npairs, norbs - npairs)\<close>
  added to the columns from \<open>npairs\<close> on. With more pairs than orbitals the product
  \<^verbatim>\<open>npairs * (norbs - npairs)\<close> is negative and the assertion fails.
  \<^verbatim>\<open>AP1roG.construct_guess\<close> builds the same matrix from \<open>x0\<close>.
\<close>

definition AP1roG_coeffs :: "'a wfn_scheme \<Rightarrow> real list \<Rightarrow> error + ndarray2" where
  "AP1roG_coeffs self val =
     (if npairs self \<le> norbs self \<and> length val = npairs self * (norbs self - npairs self)
      then Inr \<lparr>nrow = npairs self, ncol = norbs self,
                entry = (\<lambda>r c. (if r = c then 1 else 0)
                          + (if npairs self \<le> c
                             then val ! (r * (norbs self - npairs self) + (c - npairs self))
                             else 0))\<rparr>
      else Inl AssertionError)"

text \<open>
  Two pairs in four orbitals with the coefficient block \<open>[[0.1, 0.2], [0.3, 0.4]]\<close>; the
  projection space holds the reference \<open>15\<close>, the four single pair excitations and the
  double pair excitation \<open>240\<close>.
\<close>

definition S24 :: wfn where
  "S24 = \<lparr>npairs = 2, norbs = 4, one = (\<lambda>p q. 0), two = (\<lambda>p q r s. 0),
           pspace = [15, 60, 51, 204, 195, 240]\<rparr>"

definition X24 :: "real list" where
  "X24 = [1 / 10, 2 / 10, 3 / 10, 4 / 10]"

section \<open>The pre-filter of the overlap\<close>

text \<open>
  C8, as amended. For every coefficient matrix and every determinant argument that is the
  invalid sentinel (\<open>None\<close> or \<open>0\<close>), or whose electron count differs from \<open>nelec\<close>, or
  that has a spatial orbital among the \<open>norbs\<close> orbitals of the wavefunction (index below
  \<open>norbs\<close>, the range the filter loops over) with unequal alpha and beta occupation, the
  overlap returns exactly \<open>0\<close> and raises nothing, in value mode and in derivative mode,
  for \<^verbatim>\<open>APIG.overlap\<close> and for the overlap of \<^verbatim>\<open>prowl/lib/apig.py\<close>. The wavefunction
  has at least one electron pair, as the \<^verbatim>\<open>npairs\<close> setter asserts.
\<close>

theorem overlap_prefilter_zero:
  assumes "0 < npairs self" and "0 < prowl_n pself"
    and "slater_det = None \<or> slater_det = Some 0
         \<or> (\<exists>sd. slater_det = Some sd \<and> popcount sd \<noteq> nelec self)
         \<or> (\<exists>sd i. slater_det = Some sd \<and> i < norbs self
                \<and> is_occupied sd (2 * i) \<noteq> is_occupied sd (2 * i + 1))"
    and "sd' = None \<or> sd' = Some 0
         \<or> (\<exists>sd. sd' = Some sd \<and> popcount sd \<noteq> prowl_n pself)
         \<or> (\<exists>sd i. sd' = Some sd \<and> i < prowl_k pself
                \<and> is_occupied sd (2 * i) \<noteq> is_occupied sd (2 * i + 1))"
  shows "APIG_overlap self slater_det gem_coeff derivative indices = Inr 0
         \<and> prowl_overlap pself sd' = Inr 0"
proof -
  have p0: "popcount 0 = 0"
    by (simp add: popcount.simps)
  have a: "APIG_overlap self slater_det gem_coeff derivative indices = Inr 0"
  proof (cases slater_det)
    case None
    then show ?thesis by (simp add: APIG_overlap_def)
  next
    case (Some sd)
    show ?thesis
    proof (cases "popcount sd \<noteq> nelec self")
      case True
      with Some show ?thesis by (simp add: APIG_overlap_def)
    next
      case False
      with Some assms(1,3) p0 obtain i where i: "i < norbs self"
          "is_occupied sd (i * 2) \<noteq> is_occupied sd (i * 2 + 1)"
        by (auto simp: nelec_def mult.commute)
      then have "list_ex (\<lambda>i. is_occupied sd (i * 2) \<noteq> is_occupied sd (i * 2 + 1))
                   [0..<norbs self]"
        unfolding list_ex_iff by (intro bexI [of _ i]) auto
      with Some show ?thesis by (simp add: APIG_overlap_def)
    qed
  qed
  have b: "prowl_overlap pself sd' = Inr 0"
  proof (cases sd')
    case None
    then show ?thesis by (simp add: prowl_overlap_def)
  next
    case (Some sd)
    show ?thesis
    proof (cases "popcount sd \<noteq> prowl_n pself")
      case True
      with Some show ?thesis by (simp add: prowl_overlap_def)
    next
      case False
      with Some assms(2,4) p0 obtain i where i: "i < prowl_k pself"
          "is_occupied sd (2 * i) \<noteq> is_occupied sd (2 * i + 1)"
        by auto
      then have "list_ex (\<lambda>i. is_occupied sd (2 * i) \<noteq> is_occupied sd (2 * i + 1))
                   [0..<prowl_k pself]"
        unfolding list_ex_iff by (intro bexI [of _ i]) auto
      with Some show ?thesis by (simp add: prowl_overlap_def)
    qed
  qed
  from a b show ?thesis ..
qed

theorem overlap_prefilter_zero_witness:
  "APIG_overlap \<lparr>npairs = 1, norbs = 2, one = (\<lambda>p q. 0), two = (\<lambda>p q r s. 0), pspace = []\<rparr>
       (Some 5) (of_rows [[1, 1 / 2]]) True (Some (0, 0)) = Inr 0
   \<and> prowl_overlap \<lparr>prowl_n = 2, prowl_k = 2, prowl_C = of_rows [[1, 1 / 2]]\<rparr> (Some 1) = Inr 0"
proof (rule overlap_prefilter_zero)
  show "0 < npairs \<lparr>npairs = 1, norbs = 2, one = (\<lambda>p q. 0), two = (\<lambda>p q r s. 0), pspace = []\<rparr>"
    by simp
  show "0 < prowl_n \<lparr>prowl_n = 2, prowl_k = 2, prowl_C = of_rows [[1, 1 / 2]]\<rparr>"
    by simp
  have "is_occupied 5 (2 * 0) \<noteq> is_occupied 5 (2 * 0 + 1)"
    by (simp add: is_occupied_def bit_iff_odd)
  then show "Some 5 = None \<or> Some (5::nat) = Some 0
      \<or> (\<exists>sd. Some 5 = Some sd
            \<and> popcount sd \<noteq> nelec \<lparr>npairs = 1, norbs = 2, one = (\<lambda>p q. 0), two = (\<lambda>p q r s. 0), pspace = []\<rparr>)
      \<or> (\<exists>sd i. Some 5 = Some sd
            \<and> i < norbs \<lparr>npairs = 1, norbs = 2, one = (\<lambda>p q. 0), two = (\<lambda>p q r s. 0), pspace = []\<rparr>
            \<and> is_occupied sd (2 * i) \<noteq> is_occupied sd (2 * i + 1))"
    by (intro disjI2 exI [of _ 5] exI [of _ 0]) simp
  have "popcount 1 \<noteq> 2"
    by (simp add: popcount.simps)
  then show "Some 1 = None \<or> Some (1::nat) = Some 0
      \<or> (\<exists>sd. Some 1 = Some sd \<and> popcount sd \<noteq> prowl_n \<lparr>prowl_n = 2, prowl_k = 2, prowl_C = of_rows [[1, 1 / 2]]\<rparr>)
      \<or> (\<exists>sd i. Some 1 = Some sd \<and> i < prowl_k \<lparr>prowl_n = 2, prowl_k = 2, prowl_C = of_rows [[1, 1 / 2]]\<rparr>
            \<and> is_occupied sd (2 * i) \<noteq> is_occupied sd (2 * i + 1))"
    by simp
qed

text \<open>
  C8, as stated, fails: an unequal alpha and beta occupation in \<^emph>\<open>some\<close> spatial orbital
  is not enough. The pre-filter looks at the spatial orbitals below \<open>norbs\<close> only. For \<open>npairs = 1\<close>,
  \<open>norbs = 2\<close> the determinant \<open>80 = 0b1010000\<close> has two electrons, in the alpha spin
  orbitals of the spatial orbitals \<open>2\<close> and \<open>3\<close>: the alpha and beta occupations of
  orbital \<open>2\<close> differ, yet no orbital below \<open>norbs\<close> is broken, the list of occupied
  pairs is empty, and the permanent of the one-by-zero matrix fails its squareness
  assertion instead of returning \<open>0\<close>.
\<close>

theorem overlap_prefilter_out_of_range_counterexample:
  "APIG_overlap \<lparr>npairs = 1, norbs = 2, one = (\<lambda>p q. 0), two = (\<lambda>p q r s. 0), pspace = []\<rparr>
       (Some 80) (of_rows [[1, 1 / 2]]) False None = Inl AssertionError
   \<and> prowl_overlap \<lparr>prowl_n = 2, prowl_k = 2, prowl_C = of_rows [[1, 1 / 2]]\<rparr> (Some 80)
       = Inl AssertionError
   \<and> is_occupied 80 (2 * 2) \<noteq> is_occupied 80 (2 * 2 + 1)
   \<and> popcount 80 = nelec \<lparr>npairs = 1, norbs = 2, one = (\<lambda>p q. 0), two = (\<lambda>p q r s. 0), pspace = []\<rparr>"
proof -
  have a: "APIG_overlap \<lparr>npairs = 1, norbs = 2, one = (\<lambda>p q. 0), two = (\<lambda>p q r s. 0), pspace = []\<rparr>
       (Some 80) (of_rows [[1, 1 / 2]]) False None = Inl AssertionError"
    by code_simp
  have b: "prowl_overlap \<lparr>prowl_n = 2, prowl_k = 2, prowl_C = of_rows [[1, 1 / 2]]\<rparr> (Some 80)
       = Inl AssertionError"
    by code_simp
  have c: "is_occupied 80 (2 * 2) \<noteq> is_occupied 80 (2 * 2 + 1)"
    by code_simp
  have d: "popcount 80 = nelec \<lparr>npairs = 1, norbs = 2, one = (\<lambda>p q. 0 :: real), two = (\<lambda>p q r s. 0 :: real), pspace = []\<rparr>"
    by code_simp
  from a b c d show ?thesis
    by simp
qed

section \<open>The projection space of AP1roG\<close>

lemma AP1roG_base_mask: "AP1roG_base self = mask (2 * npairs self)"
proof -
  have "(\<Sum>i\<leftarrow>[0..<p]. 2 ^ (2 * i) + 2 ^ (2 * i + 1)) = (2::nat) ^ (2 * p) - 1" for p
    by (induction p) (simp_all add: algebra_simps)
  then show ?thesis
    by (simp add: AP1roG_base_def mask_eq_exp_minus_1)
qed

lemma is_occupied_base [simp]: "is_occupied (AP1roG_base self) m \<longleftrightarrow> m < 2 * npairs self"
  by (simp add: is_occupied_def AP1roG_base_mask bit_mask_iff)

lemma is_pair_occupied_base [simp]:
  "is_pair_occupied (AP1roG_base self) i \<longleftrightarrow> i < npairs self"
  by (auto simp: is_pair_occupied_def)

lemma excite_pairs_moved:
  assumes "is_pair_occupied sd i" "\<not> is_occupied sd (2 * a)" "\<not> is_occupied sd (2 * a + 1)"
  shows "excite_pairs sd [i, a] = pair_moved sd i a"
  using assms
  by (auto simp: excite_pairs_def spin_pairs_def is_pair_occupied_def is_occupied_def pair_moved_def
      bit_unset_bit_iff bit_set_bit_iff)

lemma is_occupied_pair_moved:
  "is_occupied (pair_moved sd i a) m \<longleftrightarrow>
     m div 2 = a \<or> (m div 2 \<noteq> i \<and> is_occupied sd m)"
proof -
  have a: "m div 2 = a \<longleftrightarrow> (2 * a = m \<or> Suc (2 * a) = m)" for a
    by presburger
  show ?thesis
    unfolding is_occupied_def pair_moved_def bit_unset_bit_iff bit_set_bit_iff a
    by (auto simp: possible_bit_def)
qed

lemma is_pair_occupied_pair_moved:
  "is_pair_occupied (pair_moved sd i a) j \<longleftrightarrow> j = a \<or> (j \<noteq> i \<and> is_pair_occupied sd j)"
  by (auto simp: is_pair_occupied_def is_occupied_pair_moved)

lemma concat_map_product:
  "concat (map (\<lambda>a. map (\<lambda>i. f i a) js) as) = map (\<lambda>(a, i). f i a) (List.product as js)"
  by (induction as) (simp_all add: o_def)

lemma pspace_list_moved:
  "AP1roG_pspace_list self =
     AP1roG_base self # map (\<lambda>(a, i). pair_moved (AP1roG_base self) i a)
       (List.product [npairs self..<norbs self] [0..<npairs self])"
proof -
  have h: "map (\<lambda>(a, i). excite_pairs (AP1roG_base self) [i, a])
          (List.product [npairs self..<norbs self] [0..<npairs self])
        = map (\<lambda>(a, i). pair_moved (AP1roG_base self) i a)
          (List.product [npairs self..<norbs self] [0..<npairs self])"
    by (rule map_cong) (auto intro!: excite_pairs_moved)
  show ?thesis
    unfolding AP1roG_pspace_list_def Let_def concat_map_product h ..
qed

lemma pair_moved_base_inj:
  assumes "i < npairs self" "npairs self \<le> a" "i' < npairs self" "npairs self \<le> a'"
    and eq: "pair_moved (AP1roG_base self) i a = pair_moved (AP1roG_base self) i' a'"
  shows "a = a' \<and> i = i'"
proof -
  let ?b = "AP1roG_base self"
  have "is_pair_occupied (pair_moved ?b i a) a'"
    unfolding eq by (simp add: is_pair_occupied_pair_moved)
  with assms(1-4) have a: "a = a'"
    by (auto simp: is_pair_occupied_pair_moved)
  have "\<not> is_pair_occupied (pair_moved ?b i' a') i"
    unfolding eq [symmetric] using assms(1-4) by (auto simp: is_pair_occupied_pair_moved)
  with assms(1-4) have "i = i'"
    by (auto simp: is_pair_occupied_pair_moved)
  with a show ?thesis ..
qed

lemma pair_moved_base_neq:
  assumes "npairs self \<le> a"
  shows "pair_moved (AP1roG_base self) i a \<noteq> AP1roG_base self"
proof
  assume eq: "pair_moved (AP1roG_base self) i a = AP1roG_base self"
  have "is_pair_occupied (pair_moved (AP1roG_base self) i a) a"
    by (simp add: is_pair_occupied_pair_moved)
  with assms show False
    unfolding eq by simp
qed

lemma distinct_pspace_list: "distinct (AP1roG_pspace_list self)"
proof -
  let ?f = "\<lambda>(a, i). pair_moved (AP1roG_base self) i a"
  let ?prod = "List.product [npairs self..<norbs self] [0..<npairs self]"
  have "inj_on ?f (set ?prod)"
    by (rule inj_onI) (auto dest: pair_moved_base_inj [rotated 4])
  then have "distinct (map ?f ?prod)"
    by (simp add: distinct_map distinct_product)
  moreover have "AP1roG_base self \<notin> set (map ?f ?prod)"
  proof
    assume "AP1roG_base self \<in> set (map ?f ?prod)"
    then obtain a i where "npairs self \<le> a" "AP1roG_base self = pair_moved (AP1roG_base self) i a"
      by auto
    then show False
      using pair_moved_base_neq [of self a i] by simp
  qed
  ultimately show ?thesis
    by (simp add: pspace_list_moved)
qed

lemma length_pspace_list:
  "length (AP1roG_pspace_list self) = 1 + npairs self * (norbs self - npairs self)"
  by (simp add: pspace_list_moved)

lemma from_index_pspace_list:
  assumes "phi \<in> set (AP1roG_pspace_list self)"
  shows "length (AP1roG_from_index self phi) \<le> 1"
proof -
  from assms consider "phi = AP1roG_base self"
    | a i where "i < npairs self" "npairs self \<le> a" "phi = pair_moved (AP1roG_base self) i a"
    by (auto simp: pspace_list_moved)
  then show ?thesis
  proof cases
    case 1
    then show ?thesis by (simp add: AP1roG_from_index_def)
  next
    case 2
    then have "AP1roG_from_index self phi = filter (\<lambda>j. j = i) [0..<npairs self]"
      unfolding AP1roG_from_index_def
      by (intro filter_cong) (auto simp: is_pair_occupied_pair_moved)
    also have "length \<dots> = card ({j. j = i} \<inter> set [0..<npairs self])"
      by (simp add: distinct_length_filter)
    also have "\<dots> \<le> card {i}"
      by (intro card_mono) auto
    finally show ?thesis by simp
  qed
qed

text \<open>
  C7 (as amended). For every \<open>0 < npairs < norbs\<close>, \<^verbatim>\<open>AP1roG.generate_pspace\<close> returns a
  duplicate-free tuple of exactly \<open>1 + npairs * (norbs - npairs)\<close> Slater determinants
  that contains the reference determinant (lowest \<open>npairs\<close> spatial orbitals doubly
  occupied); its position in the tuple is that of set iteration and need not be the
  first.
\<close>

theorem AP1roG_generate_pspace_unordered:
  assumes "0 < npairs self" and "npairs self < norbs self"
  shows "(\<exists>t. AP1roG_generate_pspace self t)
    \<and> (\<forall>t. AP1roG_generate_pspace self t \<longrightarrow>
           distinct t \<and> length t = 1 + npairs self * (norbs self - npairs self)
           \<and> ground self \<in> set t)"
proof (intro conjI allI impI)
  have "AP1roG_generate_pspace self (AP1roG_pspace_list self)"
    by (simp add: AP1roG_generate_pspace_def tuple_of_set_def distinct_pspace_list)
  then show "\<exists>t. AP1roG_generate_pspace self t" ..
next
  fix t
  assume t: "AP1roG_generate_pspace self t"
  then show "distinct t"
    by (simp add: AP1roG_generate_pspace_def tuple_of_set_def)
  from t have "length t = card (set (AP1roG_pspace_list self))"
    by (metis AP1roG_generate_pspace_def tuple_of_set_def distinct_card)
  also have "\<dots> = length (AP1roG_pspace_list self)"
    by (rule distinct_card) (rule distinct_pspace_list)
  finally show "length t = 1 + npairs self * (norbs self - npairs self)"
    by (simp add: length_pspace_list)
  have "ground self = AP1roG_base self"
    by (simp add: ground_def AP1roG_base_mask mask_eq_exp_minus_1)
  with t show "ground self \<in> set t"
    by (simp add: AP1roG_generate_pspace_def tuple_of_set_def pspace_list_moved)
qed

theorem AP1roG_generate_pspace_unordered_witness:
  "AP1roG_generate_pspace
     \<lparr>npairs = 1, norbs = 3, one = (\<lambda>p q. 0), two = (\<lambda>p q r s. 0), pspace = []\<rparr> [3, 12, 48]
   \<and> distinct [3, 12, 48 :: nat] \<and> length [3, 12, 48 :: nat] = 1 + 1 * (3 - 1)
   \<and> ground \<lparr>npairs = 1, norbs = 3, one = (\<lambda>p q. 0), two = (\<lambda>p q r s. 0), pspace = []\<rparr>
       \<in> set [3, 12, 48]"
proof -
  let ?S = "\<lparr>npairs = 1, norbs = 3, one = (\<lambda>p q. 0 :: real), two = (\<lambda>p q r s. 0 :: real),
             pspace = []\<rparr>"
  have l: "AP1roG_pspace_list ?S = [3, 12, 48]"
    by code_simp
  have g: "AP1roG_generate_pspace ?S [3, 12, 48]"
    unfolding AP1roG_generate_pspace_def tuple_of_set_def l by simp
  have h: "0 < npairs ?S" "npairs ?S < norbs ?S"
    by simp_all
  from AP1roG_generate_pspace_unordered [OF h, THEN conjunct2, rule_format, OF g] g
  show ?thesis
    by simp
qed

text \<open>
  For \<open>npairs = 1\<close>, \<open>norbs = 3\<close> the set is \<open>{3, 12, 48}\<close>, and the tuple \<open>(48, 3, 12)\<close>
  that CPython makes of it does not start with the reference \<open>3\<close>.
\<close>

theorem AP1roG_generate_pspace_first_counterexample:
  "AP1roG_generate_pspace
     \<lparr>npairs = 1, norbs = 3, one = (\<lambda>p q. 0), two = (\<lambda>p q r s. 0), pspace = []\<rparr> [48, 3, 12]
   \<and> hd [48, 3, 12]
       \<noteq> ground \<lparr>npairs = 1, norbs = 3, one = (\<lambda>p q. 0), two = (\<lambda>p q r s. 0), pspace = []\<rparr>"
proof -
  let ?S = "\<lparr>npairs = 1, norbs = 3, one = (\<lambda>p q. 0 :: real), two = (\<lambda>p q r s. 0 :: real),
             pspace = []\<rparr>"
  have l: "AP1roG_pspace_list ?S = [3, 12, 48]"
    by code_simp
  have "AP1roG_generate_pspace ?S [48, 3, 12]"
    unfolding AP1roG_generate_pspace_def tuple_of_set_def l by auto
  then show ?thesis
    by (simp add: ground_def)
qed

text \<open>
  C10. \<^verbatim>\<open>AP1roG.overlap\<close> returns \<open>0\<close> for every determinant that is not in the stored
  projection space, whatever the matrix. When the projection space is the one
  \<^verbatim>\<open>AP1roG.generate_pspace\<close> produces, every determinant in it has \<open>excite_count\<close> at
  most one, so a doubly or higher pair-excited determinant gets overlap \<open>0\<close> and the
  branches for \<open>excite_count = 2\<close> and \<open>excite_count > 2\<close> are never reached.
\<close>

theorem AP1roG_overlap_pspace_gate:
  "AP1roG_overlap self None matrix derivative indices = Inr 0
   \<and> (phi \<notin> set (pspace self) \<longrightarrow>
        AP1roG_overlap self (Some phi) matrix derivative indices = Inr 0)
   \<and> (AP1roG_generate_pspace self (pspace self) \<longrightarrow>
        (phi \<in> set (pspace self) \<longrightarrow> length (AP1roG_from_index self phi) \<le> 1)
        \<and> (2 \<le> length (AP1roG_from_index self phi) \<longrightarrow>
             AP1roG_overlap self (Some phi) matrix derivative indices = Inr 0))"
proof (intro conjI impI)
  show "AP1roG_overlap self None matrix derivative indices = Inr 0"
    by (simp add: AP1roG_overlap_def)
  show out: "AP1roG_overlap self (Some phi) matrix derivative indices = Inr 0"
    if "phi \<notin> set (pspace self)"
    using that by (simp add: AP1roG_overlap_def)
  assume g: "AP1roG_generate_pspace self (pspace self)"
  show le: "length (AP1roG_from_index self phi) \<le> 1" if "phi \<in> set (pspace self)"
    using that g from_index_pspace_list [of phi self]
    by (simp add: AP1roG_generate_pspace_def tuple_of_set_def)
  show "AP1roG_overlap self (Some phi) matrix derivative indices = Inr 0"
    if "2 \<le> length (AP1roG_from_index self phi)"
  proof (rule out)
    show "phi \<notin> set (pspace self)"
      using le that by auto
  qed
qed

theorem AP1roG_overlap_pspace_gate_witness:
  "AP1roG_overlap
     \<lparr>npairs = 2, norbs = 4, one = (\<lambda>p q. 0), two = (\<lambda>p q r s. 0),
      pspace = [15, 51, 60, 195, 204]\<rparr>
     (Some 240) (of_rows [[1, 0, 1 / 10, 2 / 10], [0, 1, 3 / 10, 4 / 10]]) False None = Inr 0
   \<and> 240 \<notin> set [15, 51, 60, 195, 204 :: nat]
   \<and> length (AP1roG_from_index
       \<lparr>npairs = 2, norbs = 4, one = (\<lambda>p q. 0), two = (\<lambda>p q r s. 0),
        pspace = [15, 51, 60, 195, 204]\<rparr> 240) = 2
   \<and> length (AP1roG_from_index
       \<lparr>npairs = 2, norbs = 4, one = (\<lambda>p q. 0), two = (\<lambda>p q r s. 0),
        pspace = [15, 51, 60, 195, 204]\<rparr> 51) \<le> 1"
proof -
  let ?S = "\<lparr>npairs = 2, norbs = 4, one = (\<lambda>p q. 0 :: real), two = (\<lambda>p q r s. 0 :: real),
             pspace = [15, 51, 60, 195, 204]\<rparr>"
  let ?M = "of_rows [[1, 0, 1 / 10, 2 / 10], [0, 1, 3 / 10, 4 / 10]]"
  have l: "AP1roG_pspace_list ?S = [15, 60, 51, 204, 195]"
    by code_simp
  have g: "AP1roG_generate_pspace ?S (pspace ?S)"
    unfolding AP1roG_generate_pspace_def tuple_of_set_def l by auto
  have f: "length (AP1roG_from_index ?S 240) = 2"
    by code_simp
  from AP1roG_overlap_pspace_gate [of ?S ?M False None 240] g f
  have a: "AP1roG_overlap ?S (Some 240) ?M False None = Inr 0"
    by simp
  from AP1roG_overlap_pspace_gate [of ?S ?M False None 51] g
  have b: "length (AP1roG_from_index ?S 51) \<le> 1"
    by simp
  from a b f show ?thesis
    by simp
qed

section \<open>The projection space of APIG: size, distinctness, first entry\<close>

lemma pair_excitation_loop_prefix:
  "\<exists>ys. pair_excitation_loop hf_ground ind_occ ind_vir num_needed list_sd num_excited = list_sd @ ys"
proof (induction hf_ground ind_occ ind_vir num_needed list_sd num_excited
    rule: pair_excitation_loop.induct)
  case (1 hf_ground ind_occ ind_vir num_needed list_sd num_excited)
  show ?case
  proof (cases "length list_sd < num_needed \<and> num_excited \<le> length ind_occ")
    case True
    define num_frontier where
      "num_frontier = num_frontier_of ind_occ ind_vir (num_needed - length list_sd)"
    define new where
      "new = concat (map (\<lambda>occs.
                    map (\<lambda>virs. excite_pairs hf_ground (occs @ virs))
                        (combinations (take num_frontier ind_vir) num_excited))
                    (combinations (take num_frontier ind_occ) num_excited))"
    from "1.IH" [OF True num_frontier_def new_def] obtain ys where
      ys: "pair_excitation_loop hf_ground ind_occ ind_vir num_needed (list_sd @ new)
             (num_excited + 1) = (list_sd @ new) @ ys"
      by blast
    have "pair_excitation_loop hf_ground ind_occ ind_vir num_needed list_sd num_excited
        = pair_excitation_loop hf_ground ind_occ ind_vir num_needed (list_sd @ new)
             (num_excited + 1)"
      using True
      by (subst pair_excitation_loop.simps) (simp add: Let_def new_def num_frontier_def)
    with ys show ?thesis
      by simp
  next
    case False
    then show ?thesis
      by (subst pair_excitation_loop.simps) auto
  qed
qed

text \<open>
  C6. Whenever \<^verbatim>\<open>APIG.generate_pspace\<close> returns without raising, the tuple has exactly
  \<open>npairs * norbs + 1\<close> entries, they are pairwise distinct, and the first is the ground
  determinant \<open>2 ^ (2 * npairs) - 1\<close>, in which exactly the lowest \<open>npairs\<close> spatial
  orbitals are doubly occupied.
\<close>

theorem APIG_generate_pspace_returns:
  assumes "APIG_generate_pspace self = Inr t"
  shows "length t = npairs self * norbs self + 1 \<and> distinct t
    \<and> t ! 0 = 2 ^ (2 * npairs self) - 1
    \<and> (\<forall>m. is_occupied (t ! 0) m \<longleftrightarrow> m < 2 * npairs self)"
proof -
  let ?hf = "2 ^ (2 * npairs self) - 1 :: nat"
  let ?occ = "rev (filter (is_pair_occupied ?hf) [0..<norbs self])"
  let ?vir = "filter (\<lambda>i. \<not> is_pair_occupied ?hf i) [0..<norbs self]"
  let ?needed = "npairs self * norbs self + 1"
  define l1 where "l1 = pair_excitation_loop ?hf ?occ ?vir ?needed [?hf] 1"
  define l2 where "l2 = (if npairs self \<le> 2 then
      l1 @ concat (map (\<lambda>i. map (\<lambda>j. excite_orbs ?hf [i * 2 + 1, j * 2]) ?vir) ?occ) else l1)"
  have eq: "APIG_generate_pspace self =
      (if npairs self = 0 then Inl ValueError
       else if length l2 \<noteq> card (set l2) then Inl AssertionError
       else if \<not> length l2 \<ge> ?needed then Inl AssertionError
       else Inr (take ?needed l2))"
    unfolding APIG_generate_pspace_def Let_def l2_def l1_def ..
  from assms have ok: "length l2 = card (set l2)" "?needed \<le> length l2" and t: "t = take ?needed l2"
    unfolding eq by (auto split: if_splits)
  obtain ys where "l1 = [?hf] @ ys"
    unfolding l1_def using pair_excitation_loop_prefix by blast
  then have "\<exists>zs. l2 = ?hf # zs"
    by (cases "npairs self \<le> 2") (simp_all add: l2_def)
  then obtain zs where l2: "l2 = ?hf # zs" ..
  from ok(1) have "distinct l2"
    by (simp add: card_distinct)
  then have d: "distinct t"
    by (simp add: t)
  have len: "length t = ?needed"
    using ok(2) by (simp add: t)
  have hd: "t ! 0 = ?hf"
    by (simp add: t l2)
  have mask: "?hf = mask (2 * npairs self)"
    by (simp only: mask_eq_exp_minus_1)
  have "is_occupied ?hf m \<longleftrightarrow> m < 2 * npairs self" for m
    unfolding is_occupied_def mask by (simp add: bit_mask_iff)
  with d len hd show ?thesis
    by simp
qed

theorem APIG_generate_pspace_returns_witness:
  "APIG_generate_pspace
     \<lparr>npairs = 1, norbs = 2, one = (\<lambda>p q. 0), two = (\<lambda>p q r s. 0), pspace = []\<rparr> = Inr [3, 12, 5]
   \<and> length [3, 12, 5 :: nat] = 1 * 2 + 1 \<and> distinct [3, 12, 5 :: nat]
   \<and> [3, 12, 5] ! 0 = (2 :: nat) ^ (2 * 1) - 1
   \<and> (\<forall>m. is_occupied ([3, 12, 5] ! 0) m \<longleftrightarrow> m < 2 * 1)"
proof -
  let ?S = "\<lparr>npairs = 1, norbs = 2, one = (\<lambda>p q. 0 :: real), two = (\<lambda>p q r s. 0 :: real),
             pspace = []\<rparr>"
  have r: "APIG_generate_pspace ?S = Inr [3, 12, 5]"
    by code_simp
  from APIG_generate_pspace_returns [OF r] r show ?thesis
    by simp
qed

section \<open>The derivative of the permanent\<close>

text \<open>
  C2 (the code departs from it). \<^verbatim>\<open>permanent_derivative\<close> is documented as the partial
  derivative of the permanent with respect to entry \<open>(i, j)\<close>, which is the permanent of
  the minor without row \<open>i\<close> and column \<open>j\<close>. The two wrap-around diagonals it adds up
  are that permanent only for a three-by-three matrix. For the two-by-two matrix
  \<open>[[1, 2], [3, 4]]\<close> and \<open>(i, j) = (0, 0)\<close> both diagonals are the entry \<open>4\<close>, so the
  function returns \<open>8\<close> where the minor's permanent is \<open>4\<close>; for the four-by-four matrix
  of ones it returns \<open>2\<close> where the minor's permanent is \<open>6\<close>.
\<close>

theorem permanent_derivative_two_diagonals:
  "permanent_derivative (of_rows [[1, 2], [3, 4]]) 0 0 = Inr 8
   \<and> permanent (minor_of (of_rows [[1, 2], [3, 4]]) 0 0) = Inr 4
   \<and> permanent_derivative
         (of_rows [[1, 1, 1, 1], [1, 1, 1, 1], [1, 1, 1, 1], [1, 1, 1, 1]]) 0 0 = Inr 2
   \<and> permanent (minor_of
         (of_rows [[1, 1, 1, 1], [1, 1, 1, 1], [1, 1, 1, 1], [1, 1, 1, 1]]) 0 0) = Inr 6"
proof -
  have a: "permanent_derivative (of_rows [[1, 2], [3, 4]]) 0 0 = Inr 8"
    by code_simp
  have b: "permanent (minor_of (of_rows [[1, 2], [3, 4]]) 0 0) = Inr 4"
    by code_simp
  have c: "permanent_derivative
         (of_rows [[1, 1, 1, 1], [1, 1, 1, 1], [1, 1, 1, 1], [1, 1, 1, 1]]) 0 0 = Inr 2"
    by code_simp
  have d: "permanent (minor_of
         (of_rows [[1, 1, 1, 1], [1, 1, 1, 1], [1, 1, 1, 1], [1, 1, 1, 1]]) 0 0) = Inr 6"
    by code_simp
  from a b c d show ?thesis
    by simp
qed

section \<open>The stored coefficients after a solver run\<close>

text \<open>
  C9. When \<^verbatim>\<open>APIG.__call__\<close> has invoked the root finder and the solver reports
  failure, the stored coefficient matrix is left unchanged and the non-convergence
  notice is printed; when it reports success, the stored coefficients become the
  solver's \<open>x\<close> reshaped to \<open>npairs\<close> by \<open>norbs\<close> (or the setter's assertion fails and they
  stay as they were). In every run, the coefficients either stay as they were or the
  root finder has returned a result that reports success.
\<close>

theorem APIG_call_coeffs:
  fixes scipy_root :: root_finder
  defines "jac \<equiv> (\<lambda>self kw. if kw_jac kw then Some (APIG_nonlin_jac self) else None)"
  shows "(call_x0 generate_guess kw = Inr x0 \<and> call_proj self kw = Inr proj
           \<and> \<not> length proj < length x0
           \<and> scipy_root (APIG_nonlin self) x0 (jac self kw) proj = Inr result \<longrightarrow>
            (\<not> res_success result \<longrightarrow>
               coeffs (fst (APIG_call scipy_root generate_guess report self kw)) = coeffs self
               \<and> not_converged
                   \<in> set (printed (fst (APIG_call scipy_root generate_guess report self kw))))
          \<and> (res_success result \<and> length (res_x result) = npairs self * norbs self \<longrightarrow>
               coeffs (fst (APIG_call scipy_root generate_guess report self kw))
               = Some \<lparr>nrow = npairs self, ncol = norbs self,
                       entry = (\<lambda>r c. res_x result ! (r * norbs self + c))\<rparr>)
          \<and> (res_success result \<and> length (res_x result) \<noteq> npairs self * norbs self \<longrightarrow>
               APIG_call scipy_root generate_guess report self kw = (self, Inl AssertionError)))
     \<and> (coeffs (fst (APIG_call scipy_root generate_guess report self kw)) = coeffs self
        \<or> (\<exists>x0 proj result.
              scipy_root (APIG_nonlin self) x0 (jac self kw) proj = Inr result
              \<and> res_success result))"
  unfolding jac_def
  by (auto simp: APIG_call_def coeffs_setter_def Let_def split: sum.splits)

theorem APIG_call_coeffs_witness:
  "coeffs (fst (APIG_call (\<lambda>f x0 jac proj. Inr \<lparr>res_success = False, res_x = x0\<rparr>)
       (Inl ValueError) (\<lambda>r. Inr [])
       \<lparr>npairs = 1, norbs = 2, one = (\<lambda>p q. 0), two = (\<lambda>p q r s. 0), pspace = [3, 12, 5],
        coeffs = None, printed = []\<rparr>
       \<lparr>kw_x0 = Some [1, 0], kw_jac = False, kw_proj = [], kw_verbose = False\<rparr>)) = None
   \<and> not_converged \<in> set (printed (fst (APIG_call
       (\<lambda>f x0 jac proj. Inr \<lparr>res_success = False, res_x = x0\<rparr>)
       (Inl ValueError) (\<lambda>r. Inr [])
       \<lparr>npairs = 1, norbs = 2, one = (\<lambda>p q. 0), two = (\<lambda>p q r s. 0), pspace = [3, 12, 5],
        coeffs = None, printed = []\<rparr>
       \<lparr>kw_x0 = Some [1, 0], kw_jac = False, kw_proj = [], kw_verbose = False\<rparr>)))"
proof -
  let ?root = "(\<lambda>f x0 jac proj. Inr \<lparr>res_success = False, res_x = x0\<rparr>) :: root_finder"
  let ?self = "\<lparr>npairs = 1, norbs = 2, one = (\<lambda>p q. 0), two = (\<lambda>p q r s. 0),
                pspace = [3, 12, 5], coeffs = None, printed = []\<rparr>"
  let ?kw = "\<lparr>kw_x0 = Some [1, 0], kw_jac = False, kw_proj = [], kw_verbose = False\<rparr>"
  have x0: "call_x0 (Inl ValueError) ?kw = Inr [1, 0]"
    by (simp add: call_x0_def)
  have proj: "call_proj ?self ?kw = Inr [12, 5]"
    by (simp add: call_proj_def ground_def)
  have r: "?root (APIG_nonlin ?self) [1, 0] (if kw_jac ?kw then Some (APIG_nonlin_jac ?self) else None)
             [12, 5] = Inr \<lparr>res_success = False, res_x = [1, 0]\<rparr>"
    by simp
  from APIG_call_coeffs [of "Inl ValueError" ?kw "[1, 0]" ?self "[12, 5]" ?root
      "\<lparr>res_success = False, res_x = [1, 0]\<rparr>" "\<lambda>r. Inr []"] x0 proj r
  show ?thesis
    by simp
qed

section \<open>Loops as sums\<close>

lemma bind_err_Inr [simp]: "bind_err (Inr v) f = f v"
  by (simp add: bind_err_def)

lemma bind_err_Inl [simp]: "bind_err (Inl e) f = Inl e"
  by (simp add: bind_err_def)

lemma fold_err_sum:
  fixes mu :: "'s \<Rightarrow> real"
  assumes "\<And>x s. x \<in> set xs \<Longrightarrow> \<exists>s'. f x s = Inr s' \<and> mu s' = mu s + t x"
  shows "\<exists>s'. fold_err f xs s = Inr s' \<and> mu s' = mu s + sum_list (map t xs)"
  using assms
proof (induction xs arbitrary: s)
  case Nil
  then show ?case by simp
next
  case (Cons x xs)
  from Cons.prems [of x s] obtain s1 where s1: "f x s = Inr s1" "mu s1 = mu s + t x"
    by auto
  from Cons.IH [of s1] Cons.prems obtain s2 where
    "fold_err f xs s1 = Inr s2" "mu s2 = mu s1 + sum_list (map t xs)"
    by auto
  with s1 show ?case
    by simp
qed

lemma fold_err_suffix:
  fixes mu :: "'s \<Rightarrow> real" and cnt :: "'s \<Rightarrow> nat"
  assumes step: "\<And>pre x rest s. full = pre @ x # rest \<Longrightarrow> cnt s = length pre \<Longrightarrow>
      \<exists>s'. f x s = Inr s' \<and> cnt s' = Suc (length pre) \<and> mu s' = mu s + t x rest"
    and "full = pre @ xs" and "cnt s = length pre"
  shows "\<exists>s'. fold_err f xs s = Inr s' \<and> mu s' = mu s + suffix_sum t xs"
  using assms(2,3)
proof (induction xs arbitrary: pre s)
  case Nil
  then show ?case by simp
next
  case (Cons x xs)
  from step [OF Cons.prems] obtain s1 where
    s1: "f x s = Inr s1" "cnt s1 = Suc (length pre)" "mu s1 = mu s + t x xs"
    by auto
  have "full = (pre @ [x]) @ xs" "cnt s1 = length (pre @ [x])"
    using Cons.prems s1 by simp_all
  from Cons.IH [OF this] obtain s2 where
    "fold_err f xs s1 = Inr s2" "mu s2 = mu s1 + suffix_sum t xs"
    by auto
  with s1 show ?case
    by simp
qed

lemma fold_pair_sum:
  fixes g h :: "'a \<Rightarrow> real"
  shows "fold (\<lambda>x (c, e). if P x then (c + g x, e - h x) else (c, e)) xs (c0, e0)
    = (c0 + (\<Sum>x\<leftarrow>xs. if P x then g x else 0), e0 - (\<Sum>x\<leftarrow>xs. if P x then h x else 0))"
  by (induction xs arbitrary: c0 e0) (auto simp: algebra_simps)

section \<open>Excitations stay within the orbitals of the wavefunction\<close>

lemma remove_list_le: "remove_list sd xs = Some s \<Longrightarrow> s \<le> sd"
proof (induction xs arbitrary: sd)
  case Nil
  then show ?case by simp
next
  case (Cons x xs)
  then have "s \<le> unset_bit x sd"
    by (auto split: if_splits)
  also have "\<dots> \<le> sd"
  proof -
    have "int (unset_bit x sd) \<le> int sd"
      unfolding of_nat_unset_bit_eq by (rule unset_bit_less_eq)
    then show ?thesis by simp
  qed
  finally show ?case .
qed

lemma set_bit_less_exp:
  fixes sd :: nat
  assumes "sd < 2 ^ m" "x < m"
  shows "set_bit x sd < 2 ^ m"
proof -
  have "take_bit m sd = sd"
    using assms(1) by (simp add: take_bit_nat_eq_self_iff)
  then have "take_bit m (set_bit x sd) = set_bit x sd"
    using assms(2) by (simp add: take_bit_set_bit_eq)
  then show ?thesis
    by (simp add: take_bit_nat_eq_self_iff)
qed

lemma add_list_less:
  "add_list sd xs = Some s \<Longrightarrow> sd < 2 ^ m \<Longrightarrow> \<forall>x\<in>set xs. x < m \<Longrightarrow> s < 2 ^ m"
proof (induction xs arbitrary: sd)
  case Nil
  then show ?case by simp
next
  case (Cons x xs)
  then show ?case
    by (auto split: if_splits intro: set_bit_less_exp)
qed

lemma excite_orbs_less:
  assumes "sd < 2 ^ m" "\<forall>x\<in>set (drop (length xs div 2) xs). x < m"
  shows "excite_orbs sd xs < 2 ^ m"
proof (cases "remove_list sd (take (length xs div 2) xs)")
  case None
  then show ?thesis by (simp add: excite_orbs_def)
next
  case (Some s)
  then have s: "s < 2 ^ m"
    using remove_list_le [OF Some] assms(1) by simp
  show ?thesis
  proof (cases "add_list s (drop (length xs div 2) xs)")
    case None
    with Some show ?thesis by (simp add: excite_orbs_def)
  next
    case (Some t)
    from add_list_less [OF Some s assms(2)] \<open>remove_list sd _ = Some s\<close> Some
    show ?thesis by (simp add: excite_orbs_def)
  qed
qed

lemma excite_pairs_less:
  assumes "sd < 4 ^ K" "\<forall>x\<in>set (drop (length xs div 2) xs). x < K"
  shows "excite_pairs sd xs < 4 ^ K"
proof -
  have four: "(4::nat) ^ K = 2 ^ (2 * K)"
    by (simp add: power_mult)
  have b: "\<forall>x\<in>set (spin_pairs (drop (length xs div 2) xs)). x < 2 * K"
    using assms(2) by (auto simp: spin_pairs_def)
  show ?thesis
  proof (cases "remove_list sd (spin_pairs (take (length xs div 2) xs))")
    case None
    then show ?thesis by (simp add: excite_pairs_def)
  next
    case (Some s)
    then have s: "s < 2 ^ (2 * K)"
      using remove_list_le [OF Some] assms(1) four by simp
    show ?thesis
    proof (cases "add_list s (spin_pairs (drop (length xs div 2) xs))")
      case None
      with Some show ?thesis by (simp add: excite_pairs_def)
    next
      case (Some t)
      from add_list_less [OF Some s b] \<open>remove_list sd _ = Some s\<close> Some four
      show ?thesis by (simp add: excite_pairs_def)
    qed
  qed
qed

section \<open>The closed-shell path as a sum\<close>

lemma double_phi_H_psi_sum:
  assumes tot: "\<And>d. d < 4 ^ norbs self \<Longrightarrow> overlap (Some d) C = Inr (w d)"
    and sd: "sd < 4 ^ norbs self"
  shows "double_phi_H_psi overlap self sd C = Inr (double_sum w self sd)"
proof -
  let ?K = "norbs self"
  let ?ta = "\<lambda>i a. if \<not> is_pair_occupied sd a
                then two self i i a a * w (excite_pairs sd [i, a]) else 0"
  let ?fa = "\<lambda>i a coulomb.
                 if \<not> is_pair_occupied sd a then
                   bind_err (overlap (Some (excite_pairs sd [i, a])) C)
                     (\<lambda>v. Inr (coulomb + two self i i a a * v))
                 else Inr coulomb"
  have a_loop: "\<exists>c'. fold_err (?fa i) [0..<?K] c = Inr c'
      \<and> c' = c + (\<Sum>a\<leftarrow>[0..<?K]. ?ta i a)" if "i < ?K" for i c
  proof (rule fold_err_sum [where mu = "\<lambda>c. c"])
    fix a s
    assume "a \<in> set [0..<?K]"
    then have "excite_pairs sd [i, a] < 4 ^ ?K"
      using sd by (intro excite_pairs_less) simp_all
    then show "\<exists>s'. ?fa i a s = Inr s' \<and> s' = s + ?ta i a"
      by (simp add: tot)
  qed
  let ?ti = "\<lambda>i. if is_pair_occupied sd i then
          2 * one self i i * w sd + two self i i i i * w sd
          + (\<Sum>j\<leftarrow>[i + 1..<?K].
               if is_pair_occupied sd j then 4 * two self i j i j * w sd else 0)
          - (\<Sum>j\<leftarrow>[i + 1..<?K].
               if is_pair_occupied sd j then 2 * two self i j j i * w sd else 0)
          + (\<Sum>a\<leftarrow>[0..<?K]. ?ta i a)
        else 0"
  let ?fi = "\<lambda>i (one_elec_part, coulomb, exchange).
          if is_pair_occupied sd i then
            let one_elec_part = one_elec_part + 2 * one self i i * w sd;
                coulomb = coulomb + two self i i i i * w sd;
                (coulomb, exchange) =
                  fold (\<lambda>j (coulomb, exchange).
                      if is_pair_occupied sd j
                      then (coulomb + 4 * two self i j i j * w sd,
                            exchange - 2 * two self i j j i * w sd)
                      else (coulomb, exchange))
                    [i + 1..<?K] (coulomb, exchange)
            in
            bind_err (fold_err (?fa i) [0..<?K] coulomb)
              (\<lambda>coulomb. Inr (one_elec_part, coulomb, exchange))
          else Inr (one_elec_part, coulomb, exchange)"
  have i_loop: "\<exists>s'. fold_err ?fi [0..<?K] (0, 0, 0) = Inr s'
      \<and> (\<lambda>(a, b, c). a + b + c) s' = (\<lambda>(a, b, c). a + b + c) (0, 0, 0) + (\<Sum>i\<leftarrow>[0..<?K]. ?ti i)"
  proof (rule fold_err_sum)
    fix i and s :: "real \<times> real \<times> real"
    assume "i \<in> set [0..<?K]"
    then have i: "i < ?K" by simp
    obtain a b c where s: "s = (a, b, c)"
      by (cases s)
    show "\<exists>s'. ?fi i s = Inr s'
        \<and> (\<lambda>(a, b, c). a + b + c) s' = (\<lambda>(a, b, c). a + b + c) s + ?ti i"
    proof (cases "is_pair_occupied sd i")
      case False
      then show ?thesis by (simp add: s)
    next
      case True
      let ?c1 = "b + two self i i i i * w sd
          + (\<Sum>j\<leftarrow>[i + 1..<?K]. if is_pair_occupied sd j then 4 * two self i j i j * w sd else 0)"
      from a_loop [OF i, of ?c1] obtain c' where
        c': "fold_err (?fa i) [0..<?K] ?c1 = Inr c'" "c' = ?c1 + (\<Sum>a\<leftarrow>[0..<?K]. ?ta i a)"
        by blast
      show ?thesis
        using True c' by (simp add: s fold_pair_sum Let_def)
    qed
  qed
  then obtain s' where s': "fold_err ?fi [0..<?K] (0, 0, 0) = Inr s'"
    "(\<lambda>(a, b, c). a + b + c) s' = (\<Sum>i\<leftarrow>[0..<?K]. ?ti i)"
    by auto
  have "double_phi_H_psi overlap self sd C =
      bind_err (fold_err ?fi [0..<?K] (0, 0, 0))
        (\<lambda>(one_elec_part, coulomb, exchange). Inr (one_elec_part + coulomb + exchange))"
    unfolding double_phi_H_psi_def by (simp add: tot [OF sd])
  also have "\<dots> = Inr (double_sum w self sd)"
    using s' by (auto simp: double_sum_def split: prod.splits)
  finally show ?thesis .
qed

section \<open>The brute-force path as a sum\<close>

lemma four_pow: "(4::nat) ^ K = 2 ^ (2 * K)"
  by (simp add: power_mult)

lemma brute_l_body_sum:
  assumes tot: "\<And>d. d < 4 ^ norbs self \<Longrightarrow> overlap (Some d) C = Inr (w d)"
    and "single < 4 ^ norbs self" "l < 2 * norbs self"
  shows "\<exists>s'. brute_l_body overlap self C single i k j l s = Inr s'
    \<and> (\<lambda>(c, e). c + e) s' = (\<lambda>(c, e). c + e) s + brute_term w self single i k j l"
proof -
  have "single < 2 ^ (2 * norbs self)"
    using assms(2) unfolding four_pow .
  then have "excite_orbs single [j, l] < 2 ^ (2 * norbs self)"
    using assms(3) by (intro excite_orbs_less) simp_all
  then have "excite_orbs single [j, l] < 4 ^ norbs self"
    unfolding four_pow .
  then have o: "overlap (Some (excite_orbs single [j, l])) C = Inr (w (excite_orbs single [j, l]))"
    by (rule tot)
  obtain c e where s: "s = (c, e)"
    by (cases s)
  define d where "d = excite_orbs single [j, l]"
  define P where "P \<longleftrightarrow> i mod 2 = k mod 2 \<and> j mod 2 = l mod 2"
  define Q where "Q \<longleftrightarrow> i mod 2 = l mod 2 \<and> j mod 2 = k mod 2"
  define x where "x = two self (i div 2) (j div 2) (k div 2) (l div 2) * w d"
  define y where "y = two self (i div 2) (j div 2) (l div 2) (k div 2) * w d"
  have b: "brute_l_body overlap self C single i k j l (c, e) =
      (if w d = 0 then Inr (c, e)
       else Inr (if P then c + x else c, if Q then e - y else e))"
    unfolding brute_l_body_def Let_def d_def P_def Q_def x_def y_def o by simp
  have t: "brute_term w self single i k j l = (if P then x else 0) - (if Q then y else 0)"
    unfolding brute_term_def Let_def d_def P_def Q_def x_def y_def ..
  have z: "x = 0" "y = 0" if "w d = 0"
    using that by (simp_all add: x_def y_def)
  show ?thesis
  proof (cases "w d = 0")
    case True
    then show ?thesis
      unfolding s b t by (simp add: z)
  next
    case False
    then show ?thesis
      unfolding s b t by (cases P; cases Q) simp_all
  qed
qed


lemma brute_k_body_sum:
  assumes tot: "\<And>d. d < 4 ^ norbs self \<Longrightarrow> overlap (Some d) C = Inr (w d)"
    and sd: "sd < 4 ^ norbs self"
    and occ: "\<forall>j\<in>set ind_occ. j < 2 * norbs self"
    and tmp: "\<forall>k\<in>set tmp. k < 2 * norbs self"
    and full: "tmp = pre @ k # rest" and cnt: "(\<lambda>(a, b, c, n). n) s = length pre"
  shows "\<exists>s'. brute_k_body overlap self sd C ind_occ ifo tmp i k s = Inr s'
    \<and> (\<lambda>(a, b, c, n). n) s' = Suc (length pre)
    \<and> (\<lambda>(a, b, c, n). a + b + c) s'
        = (\<lambda>(a, b, c, n). a + b + c) s
          + brute_k_term w self sd (drop (ifo + 1) ind_occ) i k rest"
proof -
  obtain a b c where s: "s = (a, b, c, length pre)"
    using cnt by (cases s) auto
  let ?single = "excite_orbs sd [i, k]"
  have k: "k < 2 * norbs self"
    using tmp full by simp
  have "sd < 2 ^ (2 * norbs self)"
    using sd unfolding four_pow .
  then have "?single < 2 ^ (2 * norbs self)"
    using k by (intro excite_orbs_less) simp_all
  then have single: "?single < 4 ^ norbs self"
    unfolding four_pow .
  have drop: "drop (Suc (length pre)) tmp = rest"
    by (simp add: full)
  let ?fj = "\<lambda>j (coulomb, exchange).
             let temp2_ind_vir = sort ([j] @ drop (length pre + 1) tmp) in
             fold_err (brute_l_body overlap self C ?single i k j)
               temp2_ind_vir (coulomb, exchange)"
  have j_loop: "\<exists>s'. fold_err ?fj (drop (ifo + 1) ind_occ) (b, c) = Inr s'
      \<and> (\<lambda>(c, e). c + e) s' = (\<lambda>(c, e). c + e) (b, c)
          + (\<Sum>j\<leftarrow>drop (ifo + 1) ind_occ. \<Sum>l\<leftarrow>sort (j # rest).
               brute_term w self ?single i k j l)"
  proof (rule fold_err_sum)
    fix j and s :: "real \<times> real"
    assume "j \<in> set (drop (ifo + 1) ind_occ)"
    then have j: "j < 2 * norbs self"
      using occ by (auto dest: in_set_dropD)
    obtain c0 e0 where s0: "s = (c0, e0)"
      by (cases s)
    have "\<exists>s'. fold_err (brute_l_body overlap self C ?single i k j) (sort (j # rest)) s = Inr s'
        \<and> (\<lambda>(c, e). c + e) s' = (\<lambda>(c, e). c + e) s
            + (\<Sum>l\<leftarrow>sort (j # rest). brute_term w self ?single i k j l)"
    proof (rule fold_err_sum)
      fix l and s :: "real \<times> real"
      assume "l \<in> set (sort (j # rest))"
      then have "l = j \<or> l \<in> set rest"
        by (simp del: sort_key_simps)
      then have "l < 2 * norbs self"
        using j tmp full by auto
      then show "\<exists>s'. brute_l_body overlap self C ?single i k j l s = Inr s'
          \<and> (\<lambda>(c, e). c + e) s' = (\<lambda>(c, e). c + e) s + brute_term w self ?single i k j l"
        by (intro brute_l_body_sum tot single)
    qed
    then show "\<exists>s'. ?fj j s = Inr s'
        \<and> (\<lambda>(c, e). c + e) s' = (\<lambda>(c, e). c + e) s
            + (\<Sum>l\<leftarrow>sort (j # rest). brute_term w self ?single i k j l)"
      by (simp add: s0 drop)
  qed
  then obtain b' c' where bc: "fold_err ?fj (drop (ifo + 1) ind_occ) (b, c) = Inr (b', c')"
    "b' + c' = b + c + (\<Sum>j\<leftarrow>drop (ifo + 1) ind_occ. \<Sum>l\<leftarrow>sort (j # rest).
               brute_term w self ?single i k j l)"
    by auto
  define P where "P \<longleftrightarrow> i mod 2 = k mod 2"
  have body: "brute_k_body overlap self sd C ind_occ ifo tmp i k (a, b, c, length pre)
      = Inr ((if P then a + one self (i div 2) (k div 2) * w ?single else a), b', c',
             length pre + 1)"
    unfolding brute_k_body_def Let_def P_def [symmetric]
    using bc(1) by (cases P) (simp_all add: tot [OF single])
  have "term": "brute_k_term w self sd (drop (ifo + 1) ind_occ) i k rest
      = (if P then one self (i div 2) (k div 2) * w ?single else 0)
        + (\<Sum>j\<leftarrow>drop (ifo + 1) ind_occ. \<Sum>l\<leftarrow>sort (j # rest).
               brute_term w self ?single i k j l)"
    unfolding brute_k_term_def Let_def P_def ..
  show ?thesis
    unfolding s body "term" using bc(2) by (cases P) simp_all
qed

lemma brute_phi_H_psi_sum:
  assumes tot: "\<And>d. d < 4 ^ norbs self \<Longrightarrow> overlap (Some d) C = Inr (w d)"
    and sd: "sd < 4 ^ norbs self"
  shows "brute_phi_H_psi overlap self sd C = Inr (brute_sum w self sd)"
proof -
  let ?occ = "filter (is_occupied sd) [0..<2 * norbs self]"
  let ?vir = "filter (\<lambda>i. \<not> is_occupied sd i) [0..<2 * norbs self]"
  let ?fi = "\<lambda>i (one_elec_part, coulomb, exchange, ind_first_occ).
           let temp1_ind_vir = sort (?vir @ [i]) in
           bind_err
             (fold_err
                (brute_k_body overlap self sd C ?occ ind_first_occ temp1_ind_vir i)
                temp1_ind_vir (one_elec_part, coulomb, exchange, 0))
             (\<lambda>(one_elec_part, coulomb, exchange, ind_first_vir).
                Inr (one_elec_part, coulomb, exchange, ind_first_occ + 1))"
  let ?ti = "\<lambda>i rest_occ.
           suffix_sum (brute_k_term w self sd rest_occ i) (sort (?vir @ [i]))"
  have "\<exists>s'. fold_err ?fi ?occ (0, 0, 0, 0) = Inr s'
      \<and> (\<lambda>(a, b, c, n). a + b + c) s'
          = (\<lambda>(a, b, c, n). a + b + c) (0, 0, 0, 0 :: nat) + suffix_sum ?ti ?occ"
  proof (rule fold_err_suffix [where cnt = "\<lambda>(a, b, c, n). n" and full = ?occ and pre = "[]"])
    fix pre i rest and s :: "real \<times> real \<times> real \<times> nat"
    assume full: "?occ = pre @ i # rest" and cnt: "(\<lambda>(a, b, c, n). n) s = length pre"
    obtain a b c where s: "s = (a, b, c, length pre)"
      using cnt by (cases s) auto
    have "i \<in> set ?occ"
      unfolding full by simp
    then have i: "i < 2 * norbs self"
      by simp
    let ?temp1 = "sort (?vir @ [i])"
    have temp1: "\<forall>k\<in>set ?temp1. k < 2 * norbs self"
      using i by (auto simp del: sort_key_simps)
    have occ: "\<forall>j\<in>set ?occ. j < 2 * norbs self"
      by simp
    have drop: "drop (length pre + 1) ?occ = rest"
      unfolding full by simp
    have "\<exists>s'. fold_err (brute_k_body overlap self sd C ?occ (length pre) ?temp1 i) ?temp1
            (a, b, c, 0) = Inr s'
        \<and> (\<lambda>(a, b, c, n). a + b + c) s'
            = (\<lambda>(a, b, c, n). a + b + c) (a, b, c, 0 :: nat)
              + suffix_sum (brute_k_term w self sd (drop (length pre + 1) ?occ) i) ?temp1"
    proof (rule fold_err_suffix [where cnt = "\<lambda>(a, b, c, n). n" and full = ?temp1 and pre = "[]"])
      fix pre' k rest' and s :: "real \<times> real \<times> real \<times> nat"
      assume a: "?temp1 = pre' @ k # rest'" "(\<lambda>(a, b, c, n). n) s = length pre'"
      show "\<exists>s'. brute_k_body overlap self sd C ?occ (length pre) ?temp1 i k s = Inr s'
          \<and> (\<lambda>(a, b, c, n). n) s' = Suc (length pre')
          \<and> (\<lambda>(a, b, c, n). a + b + c) s'
              = (\<lambda>(a, b, c, n). a + b + c) s
                + brute_k_term w self sd (drop (length pre + 1) ?occ) i k rest'"
        by (rule brute_k_body_sum [where w = w and overlap = overlap and C = C and pre = pre'
              and rest = rest' and tmp = ?temp1 and ind_occ = ?occ, OF tot sd occ temp1 a])
    qed simp_all
    then obtain a' b' c' n' where
      "fold_err (brute_k_body overlap self sd C ?occ (length pre) ?temp1 i) ?temp1
            (a, b, c, 0) = Inr (a', b', c', n')"
      "a' + b' + c' = a + b + c + suffix_sum (brute_k_term w self sd rest i) ?temp1"
      unfolding drop by auto
    then show "\<exists>s'. ?fi i s = Inr s' \<and> (\<lambda>(a, b, c, n). n) s' = Suc (length pre)
        \<and> (\<lambda>(a, b, c, n). a + b + c) s' = (\<lambda>(a, b, c, n). a + b + c) s + ?ti i rest"
      by (simp add: s Let_def)
  qed simp_all
  then obtain a b c n where
    "fold_err ?fi ?occ (0, 0, 0, 0) = Inr (a, b, c, n)" "a + b + c = suffix_sum ?ti ?occ"
    by auto
  then show ?thesis
    by (simp add: brute_phi_H_psi_def brute_sum_def Let_def)
qed

section \<open>Sums over the lists of the integrators\<close>

lemma sum_list_insort:
  fixes f :: "nat \<Rightarrow> real"
  shows "sum_list (map f (insort x xs)) = f x + sum_list (map f xs)"
  by (induction xs) simp_all

lemma sum_list_sort:
  fixes f :: "nat \<Rightarrow> real"
  shows "sum_list (map f (sort xs)) = sum_list (map f xs)"
  by (induction xs) (simp_all add: sum_list_insort)

lemma sum_list_if_filter:
  fixes f :: "'a \<Rightarrow> real"
  shows "(\<Sum>x\<leftarrow>xs. if P x then f x else 0) = sum_list (map f (filter P xs))"
  by (induction xs) simp_all

lemma sum_list_spin_pairs:
  fixes f :: "nat \<Rightarrow> real"
  shows "sum_list (map f (spin_pairs ps)) = (\<Sum>p\<leftarrow>ps. f (2 * p) + f (2 * p + 1))"
  by (induction ps) (simp_all add: spin_pairs_def)

lemma sum_list_single:
  fixes f :: "'a \<Rightarrow> real"
  assumes "distinct xs" "\<And>x. x \<in> set xs \<Longrightarrow> x \<noteq> a \<Longrightarrow> f x = 0"
  shows "sum_list (map f xs) = (if a \<in> set xs then f a else 0)"
  using assms
proof (induction xs)
  case Nil
  then show ?case by simp
next
  case (Cons x xs)
  have z: "sum_list (map f xs) = 0" if "a \<notin> set xs"
    using Cons that by simp
  show ?case
  proof (cases "x = a")
    case True
    with Cons.prems(1) have "a \<notin> set xs" by simp
    with True z show ?thesis by simp
  next
    case False
    with Cons show ?thesis by simp
  qed
qed

lemma sorted_suffix_filter:
  fixes xs :: "nat list"
  assumes "sorted (pre @ x # rest)" "distinct (pre @ x # rest)"
  shows "filter (\<lambda>y. x < y) (pre @ x # rest) = rest"
proof -
  have "\<forall>y\<in>set pre. \<not> x < y"
    using assms(1) by (auto simp: sorted_append)
  then have a: "filter (\<lambda>y. x < y) pre = []"
    by (simp add: filter_empty_conv)
  have "\<forall>y\<in>set rest. x < y"
    using assms by (auto simp: sorted_append le_less)
  then have b: "filter (\<lambda>y. x < y) rest = rest"
    by (simp add: filter_id_conv)
  show ?thesis
    by (simp add: a b)
qed

lemma suffix_sum_sorted_aux:
  fixes xs :: "nat list"
  assumes "sorted xs" "distinct xs" "xs = pre @ ys"
  shows "suffix_sum t ys = (\<Sum>x\<leftarrow>ys. t x (filter (\<lambda>y. x < y) xs))"
  using assms(3)
proof (induction ys arbitrary: pre)
  case Nil
  then show ?case by simp
next
  case (Cons x rest)
  have "filter (\<lambda>y. x < y) xs = rest"
    using sorted_suffix_filter [of pre x rest] assms(1,2) Cons.prems by simp
  moreover have "suffix_sum t rest = (\<Sum>x\<leftarrow>rest. t x (filter (\<lambda>y. x < y) xs))"
    by (rule Cons.IH [of "pre @ [x]"]) (simp add: Cons.prems)
  ultimately show ?case by simp
qed

lemma suffix_sum_sorted:
  fixes xs :: "nat list"
  assumes "sorted xs" "distinct xs"
  shows "suffix_sum t xs = (\<Sum>x\<leftarrow>xs. t x (filter (\<lambda>y. x < y) xs))"
  using suffix_sum_sorted_aux [OF assms, of "[]" xs] by simp

section \<open>Bits of closed-shell determinants and of their excitations\<close>

lemma partner_div [simp]: "partner m div 2 = m div 2"
  by (auto simp: partner_def elim!: evenE oddE)

lemma partner_neq [simp]: "partner m \<noteq> m" "m \<noteq> partner m"
  by (auto simp: partner_def elim!: oddE)

lemma partner_partner [simp]: "partner (partner m) = m"
  by (auto simp: partner_def elim!: oddE)

lemma partner_less: "m < 2 * K \<Longrightarrow> partner m < 2 * K"
  by (auto simp: partner_def elim!: evenE oddE)

lemma partner_parity: "even (partner m) \<longleftrightarrow> odd m"
  by (auto simp: partner_def)

lemma closed_partner:
  assumes "\<forall>p. is_occupied sd (2 * p) = is_occupied sd (2 * p + 1)"
  shows "is_occupied sd (partner m) = is_occupied sd m"
proof (cases "even m")
  case True
  then obtain p where "m = 2 * p" by (auto elim: evenE)
  with assms show ?thesis by (simp add: partner_def)
next
  case False
  then obtain p where "m = 2 * p + 1" by (auto elim: oddE)
  with assms show ?thesis by (simp add: partner_def)
qed

lemma broken_partner:
  assumes wz: "\<forall>d. (\<exists>p<K. is_occupied d (2 * p) \<noteq> is_occupied d (2 * p + 1)) \<longrightarrow> w d = (0::real)"
    and "m < 2 * K" "is_occupied d m \<noteq> is_occupied d (partner m)"
  shows "w d = 0"
proof -
  have "\<exists>p<K. is_occupied d (2 * p) \<noteq> is_occupied d (2 * p + 1)"
  proof (cases "even m")
    case True
    then obtain p where p: "m = 2 * p" by (auto elim: evenE)
    with assms(2) have "p < K" by simp
    with p assms(3) show ?thesis
      by (intro exI [of _ p]) (auto simp: partner_def)
  next
    case False
    then obtain p where p: "m = 2 * p + 1" by (auto elim: oddE)
    with assms(2) have "p < K" by simp
    with p assms(3) show ?thesis
      by (intro exI [of _ p]) (auto simp: partner_def)
  qed
  with wz show ?thesis by blast
qed

lemma occupied_less:
  assumes "sd < 4 ^ K" "is_occupied sd m"
  shows "m < 2 * K"
proof -
  have "take_bit (2 * K) sd = sd"
    using assms(1) by (simp add: take_bit_nat_eq_self_iff four_pow)
  then have "bit sd m \<longleftrightarrow> m < 2 * K \<and> bit sd m"
    by (metis bit_take_bit_iff)
  with assms(2) show ?thesis
    by (simp add: is_occupied_def)
qed

lemma excite_orbs_moved:
  assumes "is_occupied sd i" "k = i \<or> \<not> is_occupied sd k"
  shows "excite_orbs sd [i, k] = orb_moved sd i k"
  using assms
  by (auto simp: excite_orbs_def orb_moved_def is_occupied_def bit_unset_bit_iff)

lemma is_occupied_orb_moved:
  "is_occupied (orb_moved sd i k) m \<longleftrightarrow> m = k \<or> (m \<noteq> i \<and> is_occupied sd m)"
  by (auto simp: orb_moved_def is_occupied_def bit_set_bit_iff bit_unset_bit_iff possible_bit_def)

lemma orb_moved_same: "is_occupied sd i \<Longrightarrow> orb_moved sd i i = sd"
  by (rule bit_eqI) (auto simp: orb_moved_def is_occupied_def bit_set_bit_iff bit_unset_bit_iff)

section \<open>The Jacobian of the nonlinear system\<close>

lemma fold_err_keep:
  "(\<And>d. d \<in> set ds \<Longrightarrow> f d s = Inr s) \<Longrightarrow> fold_err f ds s = Inr s"
  by (induction ds) simp_all

lemma perms3:
  "permutations [0, 1, 2 :: nat] = [[0, 1, 2], [0, 2, 1], [1, 0, 2], [1, 2, 0], [2, 0, 1], [2, 1, 0]]"
  by code_simp

lemma perms3_Suc:
  "permutations [0, Suc 0, 2] = [[0, 1, 2], [0, 2, 1], [1, 0, 2], [1, 2, 0], [2, 0, 1], [2, 1, 0]]"
  using perms3 by simp

lemma upt3: "[0..<3] = [0, 1, 2]" "[1..<3] = [1, 2]" "[2..<3] = [2]" "[3..<3] = []"
  by code_simp+

lemma upt3_Suc:
  "[Suc 0..<3] = [1, 2]" "[Suc (Suc 0)..<3] = [2]" "[Suc (Suc (Suc 0))..<3] = []"
  by (simp_all add: upt_rec)

lemma S33_sel: "npairs S33 = 3" "norbs S33 = 3" "one S33 = (\<lambda>p q. 0)" "two S33 = (\<lambda>p q r s. 0)"
  by (simp_all add: S33_def)

lemma ground_S33: "ground S33 = 63"
  by (simp add: ground_def S33_sel)

lemma popcount_63: "popcount 63 = 6"
  by code_simp

lemma alpha_beta_equal_63: "alpha_beta_equal 63"
  by code_simp

lemma closed_63:
  "\<not> list_ex (\<lambda>i. is_occupied 63 (i * 2) \<noteq> is_occupied 63 (i * 2 + 1)) [0..<3]"
  by code_simp

lemma pairs_63: "filter (is_pair_occupied 63) [0..<3] = [0, 1, 2]"
  by code_simp

lemma is_pair_occupied_63: "i < 3 \<Longrightarrow> is_pair_occupied 63 i"
proof -
  assume "i < 3"
  then have "i \<in> set (filter (is_pair_occupied 63) [0..<3])"
    unfolding pairs_63 by auto
  then show ?thesis
    by simp
qed

lemma overlap_63:
  "APIG_overlap S33 (Some 63) C False None
     = bind_err (take_cols C [0, 1, 2]) permanent"
  unfolding APIG_overlap_def Let_def S33_sel nelec_def
  using closed_63 by (simp add: popcount_63 pairs_63)

lemma double_phi_H_psi_63:
  "double_phi_H_psi ov S33 63 C = bind_err (ov (Some 63) C) (\<lambda>olp. Inr 0)"
  unfolding double_phi_H_psi_def S33_sel upt3
  by (simp add: is_pair_occupied_63 upt3 upt3_Suc bind_err_def split: sum.splits)

lemma phi_H_psi_63: "phi_H_psi ov S33 63 C = bind_err (ov (Some 63) C) (\<lambda>olp. Inr 0)"
  by (simp add: phi_H_psi_def alpha_beta_equal_63 double_phi_H_psi_63)

lemma overlap_63_value:
  "APIG_overlap S33 (Some 63)
     \<lparr>nrow = 3, ncol = 3, entry = (\<lambda>r c. [t, 1, 1, 1, 1, 1, 1, 1, 1] ! (r * 3 + c))\<rparr> False None
   = Inr (2 * t + 4)"
  unfolding overlap_63
  by (simp add: take_cols_def permanent_def Let_def perms3_Suc upt3)

lemma set_item_keep: "i < length vec \<Longrightarrow> vec ! i = v \<Longrightarrow> set_item vec i v = Inr vec"
  by (simp add: set_item_def list_update_same_conv)

lemma APIG_nonlin_S33:
  "APIG_nonlin S33 [t, 1, 1, 1, 1, 1, 1, 1, 1] (replicate 9 63) = Inr ((2 * t + 3) # replicate 8 0)"
proof -
  let ?C = "\<lparr>nrow = 3, ncol = 3, entry = (\<lambda>r c. [t, 1, 1, 1, 1, 1, 1, 1, 1] ! (r * 3 + c))\<rparr>"
  let ?ov = "\<lambda>sd gc. APIG_overlap S33 sd gc False None"
  let ?vec = "(2 * t + 3) # replicate 8 0"
  have cg: "construct_guess S33 [t, 1, 1, 1, 1, 1, 1, 1, 1] = Inr ?C"
    by (simp add: construct_guess_def S33_sel)
  have en: "phi_H_psi ?ov S33 63 ?C = Inr 0"
    by (simp add: phi_H_psi_63 overlap_63_value)
  have v0: "set_item (replicate (length [t, 1, 1, 1, 1, 1, 1, 1, 1]) 0) 0 (2 * t + 4 - 1) = Inr ?vec"
    by (simp add: set_item_def eval_nat_numeral)
  have body: "bind_err (item (replicate 9 63) d) (\<lambda>sd.
          bind_err (?ov (Some sd) ?C) (\<lambda>olp.
          bind_err (phi_H_psi ?ov S33 sd ?C) (\<lambda>h.
            set_item ?vec (d + 1) (0 * olp - h)))) = Inr ?vec"
    if "d \<in> set [0..<8]" for d
  proof -
    from that have d: "d < 8"
      by simp
    then have it: "item (replicate 9 63) d = Inr (63 :: nat)"
      by (simp add: item_def)
    from d have "set_item ?vec (d + 1) 0 = Inr ?vec"
      by (intro set_item_keep) simp_all
    then show ?thesis
      by (simp add: it overlap_63_value en)
  qed
  have len: "length [t, 1, 1, 1, 1, 1, 1, 1, 1] - 1 = 8"
    by simp
  show ?thesis
    unfolding APIG_nonlin_def Let_def cg ground_S33 bind_err_Inr en overlap_63_value v0 len
    by (rule fold_err_keep) (rule body)
qed


section \<open>Expansion of the permanent along a row\<close>

lemma without_pos_map: "without_pos i (map h xs) = map h (without_pos i xs)"
  by (simp add: without_pos_def take_map drop_map)

lemma without_pos_0 [simp]: "without_pos 0 (x # xs) = xs"
  by (simp add: without_pos_def)

lemma without_pos_Suc [simp]: "without_pos (Suc i) (x # xs) = x # without_pos i xs"
  by (simp add: without_pos_def)

lemma without_pos_last [simp]: "without_pos (length xs) (xs @ [a]) = xs"
  by (simp add: without_pos_def)

lemma set_without_pos: "set (without_pos i xs) \<subseteq> set xs"
  unfolding without_pos_def by (auto dest: in_set_takeD in_set_dropD)

lemma permutations_map: "permutations (map h xs) = map (map h) (permutations xs)"
proof (induction xs rule: permutations.induct)
  case (1 xs)
  show ?case
  proof (cases "xs = []")
    case True
    then show ?thesis
      by (simp add: permutations.simps)
  next
    case False
    have "concat (map (\<lambda>i. map ((#) (map h xs ! i)) (permutations (without_pos i (map h xs))))
            [0..<length (map h xs)])
        = concat (map (\<lambda>i. map (map h) (map ((#) (xs ! i)) (permutations (without_pos i xs))))
            [0..<length xs])"
    proof -
      have "map (\<lambda>i. map ((#) (map h xs ! i)) (permutations (without_pos i (map h xs))))
              [0..<length (map h xs)]
          = map (\<lambda>i. map (map h) (map ((#) (xs ! i)) (permutations (without_pos i xs))))
              [0..<length xs]"
        using 1 [OF False] by (auto simp: without_pos_map)
      then show ?thesis
        by (rule arg_cong)
    qed
    also have "\<dots> = map (map h) (concat (map (\<lambda>i. map ((#) (xs ! i)) (permutations (without_pos i xs)))
            [0..<length xs]))"
      by (simp add: map_concat o_def)
    finally show ?thesis
      using False by (subst permutations.simps, subst (2) permutations.simps) simp
  qed
qed

lemma sum_list_concat_map:
  "sum_list (concat (map g xs)) = (\<Sum>x \<leftarrow> xs. sum_list (g x :: real list))"
  by (induction xs) simp_all

lemma perm_sum_Nil [simp]: "perm_sum f rows [] = 1"
  by (simp add: perm_sum_def permutations.simps)

lemma perm_sum_Cons:
  assumes "cols \<noteq> []"
  shows "perm_sum f (r # rs) cols
       = (\<Sum>i \<leftarrow> [0..<length cols]. f r (cols ! i) * perm_sum f rs (without_pos i cols))"
proof -
  have "perm_sum f (r # rs) cols
      = (\<Sum>i \<leftarrow> [0..<length cols]. \<Sum>p \<leftarrow> permutations (without_pos i cols).
           (\<Prod>(r, c) \<leftarrow> zip (r # rs) (cols ! i # p). f r c))"
    unfolding perm_sum_def
    using assms
    by (subst permutations.simps) (simp add: map_concat o_def sum_list_concat_map)
  also have "\<dots> = (\<Sum>i \<leftarrow> [0..<length cols]. f r (cols ! i) * perm_sum f rs (without_pos i cols))"
    by (simp add: perm_sum_def sum_list_const_mult)
  finally show ?thesis .
qed

lemma sum_list_all_zero: "(\<And>x. x \<in> set xs \<Longrightarrow> g x = (0::real)) \<Longrightarrow> (\<Sum>x \<leftarrow> xs. g x) = 0"
  by (induction xs) simp_all

lemma sum_list_upt_first:
  "(\<Sum>i \<leftarrow> [0..<Suc m]. g i) = g 0 + (\<Sum>i \<leftarrow> [0..<m]. (g (Suc i) :: real))"
proof -
  have "[0..<Suc m] = 0 # map Suc [0..<m]"
    by (simp add: upt_conv_Cons map_Suc_upt del: upt_Suc)
  then show ?thesis
    by (simp add: o_def del: upt_Suc)
qed

text \<open>A row that vanishes on all the columns makes the permanent vanish.\<close>

lemma perm_sum_zero_row:
  assumes "x \<in> set rows" "length rows = length cols" "\<forall>c \<in> set cols. f x c = 0"
  shows "perm_sum f rows cols = 0"
  using assms
proof (induction rows arbitrary: cols)
  case Nil
  then show ?case by simp
next
  case (Cons r rs)
  then have ne: "cols \<noteq> []"
    by auto
  show ?case
    unfolding perm_sum_Cons [OF ne]
  proof (rule sum_list_all_zero)
    fix i
    assume "i \<in> set [0..<length cols]"
    then have i: "i < length cols"
      by simp
    show "f r (cols ! i) * perm_sum f rs (without_pos i cols) = 0"
    proof (cases "x = r")
      case True
      with Cons.prems(3) i show ?thesis
        by simp
    next
      case False
      with Cons.prems(1) have "x \<in> set rs"
        by simp
      moreover from Cons.prems(2) i have "length rs = length (without_pos i cols)"
        by simp
      moreover from Cons.prems(3) have "\<forall>c \<in> set (without_pos i cols). f x c = 0"
        using set_without_pos [of i cols] by auto
      ultimately have "perm_sum f rs (without_pos i cols) = 0"
        by (rule Cons.IH)
      then show ?thesis
        by simp
    qed
  qed
qed

text \<open>The permanent of an identity block is one.\<close>

lemma perm_sum_identity:
  assumes "distinct rows" "\<forall>r \<in> set rows. \<forall>c \<in> set rows. f r c = (if r = c then 1 else 0)"
  shows "perm_sum f rows rows = 1"
  using assms
proof (induction rows)
  case Nil
  then show ?case by simp
next
  case (Cons r rs)
  have rest: "(\<Sum>i \<leftarrow> [0..<length rs]. f r ((r # rs) ! Suc i) * perm_sum f rs (without_pos (Suc i) (r # rs))) = 0"
  proof (rule sum_list_all_zero)
    fix i
    assume "i \<in> set [0..<length rs]"
    then have "rs ! i \<in> set rs"
      by simp
    with Cons.prems have "f r (rs ! i) = 0"
      by auto
    then show "f r ((r # rs) ! Suc i) * perm_sum f rs (without_pos (Suc i) (r # rs)) = 0"
      by simp
  qed
  from Cons have ih: "perm_sum f rs rs = 1"
    by simp
  from Cons.prems have rr: "f r r = 1"
    by simp
  have "perm_sum f (r # rs) (r # rs)
      = (\<Sum>i \<leftarrow> [0..<Suc (length rs)]. f r ((r # rs) ! i) * perm_sum f rs (without_pos i (r # rs)))"
    by (subst perm_sum_Cons) simp_all
  also have "\<dots> = f r r * perm_sum f rs rs"
    unfolding sum_list_upt_first rest by simp
  finally show ?case
    by (simp add: ih rr)
qed

text \<open>
  An identity block in which the column \<open>x\<close> has been replaced by a column \<open>a\<close>, put
  last: the permanent is the entry of the row \<open>x\<close> in that column.
\<close>

lemma perm_sum_one_moved:
  assumes "distinct (pre @ x # post)" "a \<notin> set (pre @ x # post)"
    and "\<forall>r \<in> set (pre @ x # post). \<forall>c \<in> set (pre @ x # post). f r c = (if r = c then 1 else 0)"
  shows "perm_sum f (pre @ x # post) (pre @ post @ [a]) = f x a"
  using assms
proof (induction pre)
  case Nil
  have zero: "(\<Sum>i \<leftarrow> [0..<length post]. f x ((post @ [a]) ! i) * perm_sum f post (without_pos i (post @ [a]))) = 0"
  proof (rule sum_list_all_zero)
    fix i
    assume "i \<in> set [0..<length post]"
    then have i: "i < length post"
      by simp
    then have "post ! i \<in> set post"
      by simp
    with Nil.prems have "f x (post ! i) = 0"
      by auto
    with i show "f x ((post @ [a]) ! i) * perm_sum f post (without_pos i (post @ [a])) = 0"
      by (simp add: nth_append)
  qed
  from Nil.prems have "perm_sum f post post = 1"
    by (intro perm_sum_identity) auto
  then show ?case
    by (simp add: perm_sum_Cons zero)
next
  case (Cons r pre)
  let ?rest = "pre @ x # post"
  let ?ys = "pre @ post @ [a]"
  from Cons.prems have ih: "perm_sum f ?rest ?ys = f x a"
    by (intro Cons.IH) auto
  from Cons.prems have rr: "f r r = 1"
    by simp
  have zero: "(\<Sum>i \<leftarrow> [0..<length ?ys]. f r ((r # ?ys) ! Suc i)
                 * perm_sum f ?rest (without_pos (Suc i) (r # ?ys))) = 0"
  proof (rule sum_list_all_zero)
    fix i
    assume "i \<in> set [0..<length ?ys]"
    then have i: "i < length ?ys"
      by (simp only: set_upt atLeastLessThan_iff)
    show "f r ((r # ?ys) ! Suc i) * perm_sum f ?rest (without_pos (Suc i) (r # ?ys)) = 0"
    proof (cases "i < length (pre @ post)")
      case True
      have "?ys ! i = ((pre @ post) @ [a]) ! i"
        by simp
      also from True have "\<dots> = (pre @ post) ! i"
        by (simp only: nth_append if_True)
      finally have "?ys ! i = (pre @ post) ! i" .
      with True have "?ys ! i \<in> set (pre @ post)"
        by (metis nth_mem)
      with Cons.prems have "f r (?ys ! i) = 0"
        by auto
      then show ?thesis
        by simp
    next
      case False
      moreover have "length ?ys = Suc (length (pre @ post))"
        by simp
      ultimately have "i = length (pre @ post)"
        using i by linarith
      then have "without_pos i ?ys = pre @ post"
        using without_pos_last [of "pre @ post" a] by simp
      moreover have "perm_sum f ?rest (r # pre @ post) = 0"
      proof (rule perm_sum_zero_row [of x])
        show "x \<in> set ?rest"
          by simp
        show "length ?rest = length (r # pre @ post)"
          by simp
        from Cons.prems show "\<forall>c \<in> set (r # pre @ post). f x c = 0"
          by auto
      qed
      ultimately show ?thesis
        by simp
    qed
  qed
  have "perm_sum f ((r # pre) @ x # post) ((r # pre) @ post @ [a])
      = (\<Sum>i \<leftarrow> [0..<Suc (length ?ys)]. f r ((r # ?ys) ! i) * perm_sum f ?rest (without_pos i (r # ?ys)))"
    by (subst append_Cons, subst append_Cons, subst perm_sum_Cons) simp_all
  also have "\<dots> = f r r * perm_sum f ?rest ?ys"
    unfolding sum_list_upt_first zero by simp
  finally show ?case
    by (simp add: ih rr)
qed

lemma permanent_take_cols:
  assumes "\<forall>c \<in> set cols. c < ncol C" "length cols = nrow C"
  shows "bind_err (take_cols C cols) permanent = Inr (perm_sum (entry C) [0..<nrow C] cols)"
proof -
  let ?rows = "[0..<nrow C]"
  have "perm_sum (entry C) ?rows cols = perm_sum (entry C) ?rows (map ((!) cols) [0..<length cols])"
    by (simp only: map_nth)
  also have "\<dots> = (\<Sum>p \<leftarrow> permutations ?rows. (\<Prod>(r, c) \<leftarrow> zip ?rows p. entry C r (cols ! c)))"
    unfolding perm_sum_def permutations_map assms(2)
    by (simp add: o_def zip_map2 case_prod_unfold)
  finally have "perm_sum (entry C) ?rows cols
      = (\<Sum>p \<leftarrow> permutations ?rows. (\<Prod>(r, c) \<leftarrow> zip ?rows p. entry C r (cols ! c)))" .
  with assms show ?thesis
    by (simp add: take_cols_def list_all_iff permanent_def bind_err_def Let_def)
qed

section \<open>The number of electrons as a number of bits\<close>

lemma popcount_card_finite: "finite {m. bit n m} \<and> popcount n = card {m. bit (n::nat) m}"
proof (induction n rule: popcount.induct)
  case (1 n)
  show ?case
  proof (cases "n = 0")
    case True
    then show ?thesis
      by (simp add: popcount.simps)
  next
    case False
    let ?B = "{m. bit (n div 2) m}"
    from 1 [OF False] have fin: "finite ?B" and ih: "popcount (n div 2) = card ?B"
      by simp_all
    have split: "{m. bit n m} = (if odd n then {0} else {}) \<union> Suc ` ?B"
    proof (rule set_eqI)
      fix m
      show "m \<in> {m. bit n m} \<longleftrightarrow> m \<in> (if odd n then {0} else {}) \<union> Suc ` ?B"
        by (cases m) (auto simp: bit_0 bit_Suc)
    qed
    have c: "card (Suc ` ?B) = card ?B"
      by (rule card_image) simp
    have "card {m. bit n m} = (if odd n then 1 else 0) + card ?B"
      unfolding split using fin c by (auto simp: card_insert_if)
    moreover have "n mod 2 = (if odd n then 1 else 0)"
      by (simp add: odd_iff_mod_2_eq_one)
    ultimately have "popcount n = card {m. bit n m}"
      using False ih by (subst popcount.simps) simp
    moreover have "finite {m. bit n m}"
      unfolding split using fin by simp
    ultimately show ?thesis
      by simp
  qed
qed

lemma popcount_card: "popcount n = card {m. is_occupied n m}"
  by (simp add: popcount_card_finite is_occupied_def)

lemma finite_occupied [simp]: "finite {m. is_occupied n m}"
  by (simp add: popcount_card_finite is_occupied_def)

lemma popcount_set_bit:
  "\<not> is_occupied x k \<Longrightarrow> popcount (set_bit k x) = Suc (popcount x)"
proof -
  assume k: "\<not> is_occupied x k"
  have "{m. is_occupied (set_bit k x) m} = insert k {m. is_occupied x m}"
    by (auto simp: is_occupied_def bit_set_bit_iff possible_bit_def)
  with k show ?thesis
    by (simp add: popcount_card)
qed

lemma popcount_unset_bit:
  "is_occupied x k \<Longrightarrow> Suc (popcount (unset_bit k x)) = popcount x"
proof -
  assume k: "is_occupied x k"
  have "{m. is_occupied (unset_bit k x) m} = {m. is_occupied x m} - {k}"
    by (auto simp: is_occupied_def bit_unset_bit_iff)
  moreover from k have "Suc (card ({m. is_occupied x m} - {k})) = card {m. is_occupied x m}"
    by (intro card_Suc_Diff1) simp_all
  ultimately show ?thesis
    by (simp only: popcount_card)
qed

lemma popcount_mask: "popcount (mask p) = p"
proof -
  have "{m. is_occupied (mask p) m} = {0..<p}"
    by (auto simp: is_occupied_def bit_mask_iff possible_bit_def)
  then show ?thesis
    by (simp add: popcount_card)
qed

lemma is_occupied_set_bit:
  "is_occupied (set_bit k x) m \<longleftrightarrow> m = k \<or> is_occupied x m"
  by (auto simp: is_occupied_def bit_set_bit_iff possible_bit_def)

lemma is_occupied_unset_bit:
  "is_occupied (unset_bit k x) m \<longleftrightarrow> m \<noteq> k \<and> is_occupied x m"
  by (auto simp: is_occupied_def bit_unset_bit_iff)

lemma popcount_pair_moved:
  assumes "is_pair_occupied sd i" "\<not> is_occupied sd (2 * a)" "\<not> is_occupied sd (2 * a + 1)"
  shows "popcount (pair_moved sd i a) = popcount sd"
proof -
  let ?s1 = "unset_bit (2 * i) sd"
  let ?s2 = "unset_bit (2 * i + 1) ?s1"
  let ?s3 = "set_bit (2 * a) ?s2"
  from assms have 1: "Suc (popcount ?s1) = popcount sd"
    by (intro popcount_unset_bit) (simp add: is_pair_occupied_def)
  from assms have 2: "Suc (popcount ?s2) = popcount ?s1"
    by (intro popcount_unset_bit) (simp add: is_pair_occupied_def is_occupied_unset_bit)
  from assms have 3: "popcount ?s3 = Suc (popcount ?s2)"
    by (intro popcount_set_bit) (simp add: is_occupied_unset_bit)
  from assms have 4: "popcount (set_bit (2 * a + 1) ?s3) = Suc (popcount ?s3)"
    by (intro popcount_set_bit) (simp add: is_occupied_unset_bit is_occupied_set_bit)
  from 1 2 3 4 show ?thesis
    unfolding pair_moved_def by linarith
qed

section \<open>Filters of ranges\<close>

lemma upt_split: "l \<le> i \<Longrightarrow> i < u \<Longrightarrow> [l..<u] = [l..<i] @ i # [Suc i..<u]"
  by (metis le_add_diff_inverse less_imp_le_nat upt_add_eq_append upt_conv_Cons)

lemma filter_upt_one:
  assumes "l \<le> i" "i < u"
  shows "filter (\<lambda>m. m = i) [l..<u] = [i]"
proof -
  have "filter (\<lambda>m. m = i) [l..<i] = []" "filter (\<lambda>m. m = i) [Suc i..<u] = []"
    by (simp_all add: filter_empty_conv)
  then show ?thesis
    unfolding upt_split [OF assms] by simp
qed

lemma filter_upt_two:
  assumes "l \<le> i" "i < j" "j < u"
  shows "filter (\<lambda>m. m = i \<or> m = j) [l..<u] = [i, j]"
proof -
  from assms have u: "[l..<u] = [l..<i] @ i # [Suc i..<u]"
    by (intro upt_split) simp_all
  from assms have "filter (\<lambda>m. m = i \<or> m = j) [l..<i] = []"
    by (simp add: filter_empty_conv)
  moreover have "filter (\<lambda>m. m = i \<or> m = j) [Suc i..<u] = filter (\<lambda>m. m = j) [Suc i..<u]"
    by (rule filter_cong) auto
  moreover from assms have "filter (\<lambda>m. m = j) [Suc i..<u] = [j]"
    by (intro filter_upt_one) simp_all
  ultimately show ?thesis
    unfolding u by simp
qed

lemma filter_upt_moved:
  assumes "i < p" "p \<le> a" "a < q"
  shows "filter (\<lambda>m. m = a \<or> (m \<noteq> i \<and> m < p)) [0..<q] = [0..<i] @ [Suc i..<p] @ [a]"
proof -
  let ?P = "\<lambda>m. m = a \<or> (m \<noteq> i \<and> m < p)"
  from assms have "[0..<q] = [0..<p] @ [p..<q]"
    by (metis le_add_diff_inverse less_imp_le_nat order_trans upt_add_eq_append zero_le)
  moreover from assms have "[0..<p] = [0..<i] @ i # [Suc i..<p]"
    by (intro upt_split) simp_all
  ultimately have u: "[0..<q] = [0..<i] @ i # [Suc i..<p] @ [p..<q]"
    by simp
  from assms have 1: "filter ?P [0..<i] = [0..<i]"
    by (simp add: filter_id_conv)
  from assms have 2: "filter ?P [Suc i..<p] = [Suc i..<p]"
    by (simp add: filter_id_conv)
  have "filter ?P [p..<q] = filter (\<lambda>m. m = a) [p..<q]"
    by (rule filter_cong) auto
  with assms have 3: "filter ?P [p..<q] = [a]"
    by (simp add: filter_upt_one)
  from assms have 4: "\<not> ?P i"
    by simp
  show ?thesis
    unfolding u filter_append filter.simps 1 2 3 using 4 by simp
qed

lemma filter_upt_less: "p \<le> q \<Longrightarrow> filter (\<lambda>m. m < p) [0..<q] = [0..<p]"
proof -
  assume "p \<le> q"
  then have "[0..<q] = [0..<p] @ [p..<q]"
    by (metis le_add_diff_inverse upt_add_eq_append zero_le)
  then show ?thesis
    by (simp add: filter_id_conv filter_empty_conv)
qed

section \<open>The closed forms of the overlap of AP1roG\<close>

lemma AP1roG_coeffs_shape:
  assumes "AP1roG_coeffs self x = Inr C"
  shows "nrow C = npairs self" "ncol C = norbs self" "npairs self \<le> norbs self"
    and "c < npairs self \<Longrightarrow> entry C r c = (if r = c then 1 else 0)"
  using assms by (auto simp: AP1roG_coeffs_def split: if_splits)

lemma AP1roG_base_nonzero: "0 < npairs self \<Longrightarrow> AP1roG_base self \<noteq> 0"
proof
  assume "0 < npairs self" "AP1roG_base self = 0"
  then have "is_occupied 0 0"
    using is_occupied_base [of self 0] by simp
  then show False
    by (simp add: is_occupied_def)
qed

lemma pair_moved_nonzero: "pair_moved sd i a \<noteq> 0"
proof
  assume "pair_moved sd i a = 0"
  then have "is_occupied 0 (2 * a)"
    using is_occupied_pair_moved [of sd i a "2 * a"] by simp
  then show False
    by (simp add: is_occupied_def)
qed

lemma overlap_reference:
  assumes "0 < npairs self" "AP1roG_coeffs self x = Inr C" "AP1roG_base self \<in> set (pspace self)"
  shows "AP1roG_overlap self (Some (AP1roG_base self)) C False None = Inr 1"
    and "APIG_overlap self (Some (AP1roG_base self)) C False None = Inr 1"
proof -
  let ?b = "AP1roG_base self"
  note sh = AP1roG_coeffs_shape [OF assms(2)]
  have fi: "AP1roG_from_index self ?b = []"
    by (simp add: AP1roG_from_index_def filter_empty_conv)
  from assms(1,3) show "AP1roG_overlap self (Some ?b) C False None = Inr 1"
    by (simp add: AP1roG_overlap_def AP1roG_base_nonzero fi)
  have pc: "popcount ?b = nelec self"
    by (simp add: AP1roG_base_mask popcount_mask nelec_def)
  have closed: "\<not> list_ex (\<lambda>i. is_occupied ?b (i * 2) \<noteq> is_occupied ?b (i * 2 + 1)) [0..<norbs self]"
    by (auto simp: list_ex_iff)
  have "filter (is_pair_occupied ?b) [0..<norbs self] = filter (\<lambda>m. m < npairs self) [0..<norbs self]"
    by (rule filter_cong) simp_all
  with sh(3) have occ: "filter (is_pair_occupied ?b) [0..<norbs self] = [0..<npairs self]"
    by (simp add: filter_upt_less)
  have "bind_err (take_cols C [0..<npairs self]) permanent
      = Inr (perm_sum (entry C) [0..<nrow C] [0..<npairs self])"
    using sh(1-3) by (intro permanent_take_cols) simp_all
  also have "perm_sum (entry C) [0..<nrow C] [0..<npairs self] = 1"
    unfolding sh(1) by (rule perm_sum_identity) (simp_all add: sh(4))
  finally have "bind_err (take_cols C [0..<npairs self]) permanent = Inr 1" .
  with closed show "APIG_overlap self (Some ?b) C False None = Inr 1"
    by (simp add: APIG_overlap_def pc occ)
qed

lemma overlap_single:
  assumes "AP1roG_coeffs self x = Inr C"
    and "i < npairs self" "npairs self \<le> a" "a < norbs self"
    and "excite_pairs (AP1roG_base self) [i, a] \<in> set (pspace self)"
  shows "AP1roG_overlap self (Some (excite_pairs (AP1roG_base self) [i, a])) C False None
           = Inr (entry C i a)"
    and "APIG_overlap self (Some (excite_pairs (AP1roG_base self) [i, a])) C False None
           = Inr (entry C i a)"
proof -
  let ?b = "AP1roG_base self"
  let ?phi = "pair_moved ?b i a"
  note sh = AP1roG_coeffs_shape [OF assms(1)]
  from assms(2,3) have phi: "excite_pairs ?b [i, a] = ?phi"
    by (intro excite_pairs_moved) simp_all
  have ipo: "is_pair_occupied ?phi m \<longleftrightarrow> m = a \<or> (m \<noteq> i \<and> m < npairs self)" for m
    by (simp add: is_pair_occupied_pair_moved)
  have "AP1roG_from_index self ?phi = filter (\<lambda>m. m = i) [0..<npairs self]"
    unfolding AP1roG_from_index_def using assms(3) by (intro filter_cong) (auto simp: ipo)
  with assms(2) have fi: "AP1roG_from_index self ?phi = [i]"
    by (simp add: filter_upt_one)
  have "AP1roG_to_index self ?phi = filter (\<lambda>m. m = a) [npairs self..<norbs self]"
    unfolding AP1roG_to_index_def by (intro filter_cong) (auto simp: ipo)
  with assms(3,4) have ti: "AP1roG_to_index self ?phi = [a]"
    by (simp add: filter_upt_one)
  from assms(5) have mem: "?phi \<in> set (pspace self)"
    by (simp add: phi)
  from assms(2,4) sh(1,2) have g: "get C i a = Inr (entry C i a)"
    by (simp add: get_def)
  show "AP1roG_overlap self (Some (excite_pairs ?b [i, a])) C False None = Inr (entry C i a)"
    unfolding phi
    by (simp add: AP1roG_overlap_def pair_moved_nonzero mem fi ti item_def g bind_err_def)
  from assms(2,3) have "popcount ?phi = popcount ?b"
    by (intro popcount_pair_moved) simp_all
  then have pc: "popcount ?phi = nelec self"
    by (simp add: AP1roG_base_mask popcount_mask nelec_def)
  have closed: "\<not> list_ex (\<lambda>m. is_occupied ?phi (m * 2) \<noteq> is_occupied ?phi (m * 2 + 1)) [0..<norbs self]"
    by (auto simp: list_ex_iff is_occupied_pair_moved)
  let ?cols = "[0..<i] @ [Suc i..<npairs self] @ [a]"
  have "filter (is_pair_occupied ?phi) [0..<norbs self]
      = filter (\<lambda>m. m = a \<or> (m \<noteq> i \<and> m < npairs self)) [0..<norbs self]"
    by (rule filter_cong) (simp_all add: ipo)
  with assms(2-4) have occ: "filter (is_pair_occupied ?phi) [0..<norbs self] = ?cols"
    by (simp add: filter_upt_moved)
  from assms(2) have rows: "[0..<npairs self] = [0..<i] @ i # [Suc i..<npairs self]"
    by (intro upt_split) simp_all
  have "bind_err (take_cols C ?cols) permanent = Inr (perm_sum (entry C) [0..<nrow C] ?cols)"
    using sh(1-3) assms(2-4) by (intro permanent_take_cols) auto
  also have "perm_sum (entry C) [0..<nrow C] ?cols = entry C i a"
    unfolding sh(1) rows
  proof (rule perm_sum_one_moved)
    show "distinct ([0..<i] @ i # [Suc i..<npairs self])"
      unfolding rows [symmetric] by simp
    from assms(3) show "a \<notin> set ([0..<i] @ i # [Suc i..<npairs self])"
      unfolding rows [symmetric] by simp
    show "\<forall>r \<in> set ([0..<i] @ i # [Suc i..<npairs self]).
            \<forall>c \<in> set ([0..<i] @ i # [Suc i..<npairs self]). entry C r c = (if r = c then 1 else 0)"
      unfolding rows [symmetric] by (simp add: sh(4))
  qed
  finally have "bind_err (take_cols C ?cols) permanent = Inr (entry C i a)" .
  with closed show "APIG_overlap self (Some (excite_pairs ?b [i, a])) C False None = Inr (entry C i a)"
    unfolding phi by (simp add: APIG_overlap_def pc occ)
qed

lemma excite_pairs_two_moved:
  assumes "is_pair_occupied sd i" "is_pair_occupied sd j" "i \<noteq> j" "a \<noteq> b"
    and "\<not> is_occupied sd (2 * a)" "\<not> is_occupied sd (2 * a + 1)"
    and "\<not> is_occupied sd (2 * b)" "\<not> is_occupied sd (2 * b + 1)"
  shows "excite_pairs sd [i, j, a, b] = pair_moved (pair_moved sd j b) i a"
proof -
  let ?r = "unset_bit (2 * j + 1) (unset_bit (2 * j) (unset_bit (2 * i + 1) (unset_bit (2 * i) sd)))"
  let ?t = "set_bit (2 * b + 1) (set_bit (2 * b) (set_bit (2 * a + 1) (set_bit (2 * a) ?r)))"
  from assms(1-3) have r: "remove_list sd [2 * i, 2 * i + 1, 2 * j, 2 * j + 1] = Some ?r"
    by (simp add: is_pair_occupied_def is_occupied_unset_bit)
  from assms(4-8) have t: "add_list ?r [2 * a, 2 * a + 1, 2 * b, 2 * b + 1] = Some ?t"
    by (simp add: is_occupied_unset_bit is_occupied_set_bit)
  have h: "length [i, j, a, b] div 2 = 2"
    by simp
  have sp: "spin_pairs (take 2 [i, j, a, b]) = [2 * i, 2 * i + 1, 2 * j, 2 * j + 1]"
      "spin_pairs (drop 2 [i, j, a, b]) = [2 * a, 2 * a + 1, 2 * b, 2 * b + 1]"
    by (simp_all add: spin_pairs_def)
  have e: "excite_pairs sd [i, j, a, b] = ?t"
    unfolding excite_pairs_def Let_def h sp r t option.case ..
  have "is_occupied ?t m = is_occupied (pair_moved (pair_moved sd j b) i a) m" for m
    using assms
    by (auto simp: is_occupied_pair_moved is_occupied_unset_bit is_occupied_set_bit
        is_pair_occupied_def)
  then have "?t = pair_moved (pair_moved sd j b) i a"
    by (intro bit_eqI) (simp add: is_occupied_def)
  with e show ?thesis
    by simp
qed

lemma overlap_double:
  assumes "AP1roG_coeffs self x = Inr C"
    and "i < j" "j < npairs self" "npairs self \<le> a" "a < b" "b < norbs self"
    and "excite_pairs (AP1roG_base self) [i, j, a, b] \<in> set (pspace self)"
  shows "AP1roG_overlap self (Some (excite_pairs (AP1roG_base self) [i, j, a, b])) C False None
           = Inr (entry C i a * entry C j b - entry C i b * entry C j a)"
proof -
  let ?b = "AP1roG_base self"
  let ?phi = "pair_moved (pair_moved ?b j b) i a"
  note sh = AP1roG_coeffs_shape [OF assms(1)]
  from assms(2-6) have phi: "excite_pairs ?b [i, j, a, b] = ?phi"
    by (intro excite_pairs_two_moved) simp_all
  have ipo: "is_pair_occupied ?phi m \<longleftrightarrow> m = a \<or> (m \<noteq> i \<and> (m = b \<or> (m \<noteq> j \<and> m < npairs self)))"
    for m
    by (simp add: is_pair_occupied_pair_moved)
  have "AP1roG_from_index self ?phi = filter (\<lambda>m. m = i \<or> m = j) [0..<npairs self]"
    unfolding AP1roG_from_index_def using assms(2-6) by (intro filter_cong) (auto simp: ipo)
  with assms(2,3) have fi: "AP1roG_from_index self ?phi = [i, j]"
    by (simp add: filter_upt_two)
  have "AP1roG_to_index self ?phi = filter (\<lambda>m. m = a \<or> m = b) [npairs self..<norbs self]"
    unfolding AP1roG_to_index_def using assms(2-6) by (intro filter_cong) (auto simp: ipo)
  with assms(4-6) have ti: "AP1roG_to_index self ?phi = [a, b]"
    by (simp add: filter_upt_two)
  from assms(7) have mem: "?phi \<in> set (pspace self)"
    by (simp add: phi)
  from assms(2-6) sh(1,2) have g: "get C i a = Inr (entry C i a)" "get C j b = Inr (entry C j b)"
      "get C i b = Inr (entry C i b)" "get C j a = Inr (entry C j a)"
    by (simp_all add: get_def)
  show ?thesis
    unfolding phi
    by (simp add: AP1roG_overlap_def pair_moved_nonzero mem fi ti item_def g bind_err_def)
qed

text \<open>
  C1, as amended. For the AP1roG wavefunction with the embedded coefficient matrix
  \<open>C = I + X\<close> of the setter of \<^verbatim>\<open>coeffs\<close> and every determinant of its projection
  space: for the reference and for a single pair excitation \<open>i \<rightarrow> a\<close> of the reference,
  \<^verbatim>\<open>AP1roG.overlap\<close> equals the overlap of APIG, the permanent of the columns of \<open>C\<close> of
  the occupied spatial orbitals, namely \<open>1\<close> and \<open>C[i, a]\<close>; for a double pair excitation
  \<open>i < j \<rightarrow> a < b\<close> it returns \<open>C[i, a] C[j, b] - C[i, b] C[j, a]\<close>, which is not the
  permanent.
\<close>

theorem AP1roG_overlap_closed_forms:
  assumes "0 < npairs self" and "AP1roG_coeffs self x = Inr C"
  shows "(AP1roG_base self \<in> set (pspace self) \<longrightarrow>
            AP1roG_overlap self (Some (AP1roG_base self)) C False None = Inr 1
          \<and> APIG_overlap self (Some (AP1roG_base self)) C False None = Inr 1)
       \<and> (\<forall>i a. i < npairs self \<and> npairs self \<le> a \<and> a < norbs self
                \<and> excite_pairs (AP1roG_base self) [i, a] \<in> set (pspace self) \<longrightarrow>
            AP1roG_overlap self (Some (excite_pairs (AP1roG_base self) [i, a])) C False None
              = Inr (entry C i a)
          \<and> APIG_overlap self (Some (excite_pairs (AP1roG_base self) [i, a])) C False None
              = Inr (entry C i a))
       \<and> (\<forall>i j a b. i < j \<and> j < npairs self \<and> npairs self \<le> a \<and> a < b \<and> b < norbs self
                \<and> excite_pairs (AP1roG_base self) [i, j, a, b] \<in> set (pspace self) \<longrightarrow>
            AP1roG_overlap self (Some (excite_pairs (AP1roG_base self) [i, j, a, b])) C False None
              = Inr (entry C i a * entry C j b - entry C i b * entry C j a))"
  using overlap_reference [OF assms] overlap_single [OF assms(2)] overlap_double [OF assms(2)]
  by blast

lemma S24_values:
  "AP1roG_base S24 = 15" "excite_pairs 15 [0, 2] = 60" "excite_pairs 15 [0, 1, 2, 3] = 240"
  by code_simp+

theorem AP1roG_overlap_closed_forms_witness:
  "bind_err (AP1roG_coeffs S24 X24) (\<lambda>C. AP1roG_overlap S24 (Some 15) C False None) = Inr 1
   \<and> bind_err (AP1roG_coeffs S24 X24) (\<lambda>C. APIG_overlap S24 (Some 15) C False None) = Inr 1
   \<and> bind_err (AP1roG_coeffs S24 X24) (\<lambda>C. AP1roG_overlap S24 (Some 60) C False None) = Inr (1 / 10)
   \<and> bind_err (AP1roG_coeffs S24 X24) (\<lambda>C. APIG_overlap S24 (Some 60) C False None) = Inr (1 / 10)
   \<and> bind_err (AP1roG_coeffs S24 X24) (\<lambda>C. AP1roG_overlap S24 (Some 240) C False None)
       = Inr (- (1 / 50))"
proof -
  define C where "C = \<lparr>nrow = 2, ncol = 4,
      entry = (\<lambda>r c. (if r = c then 1 else 0)
                 + (if 2 \<le> c then X24 ! (r * 2 + (c - 2)) else (0::real)))\<rparr>"
  have c: "AP1roG_coeffs S24 X24 = Inr C"
    by (simp add: AP1roG_coeffs_def S24_def X24_def C_def fun_eq_iff)
  have n: "0 < npairs S24"
    by (simp add: S24_def)
  note t = AP1roG_overlap_closed_forms [OF n c, unfolded S24_values]
  have sel: "npairs S24 = 2" "norbs S24 = 4" "pspace S24 = [15, 60, 51, 204, 195, 240]"
    by (simp_all add: S24_def)
  from t have 1: "AP1roG_overlap S24 (Some 15) C False None = Inr 1
      \<and> APIG_overlap S24 (Some 15) C False None = Inr 1"
    by (simp add: sel)
  from t have "0 < npairs S24 \<and> npairs S24 \<le> 2 \<and> 2 < norbs S24
      \<and> excite_pairs 15 [0, 2] \<in> set (pspace S24) \<longrightarrow>
      AP1roG_overlap S24 (Some (excite_pairs 15 [0, 2])) C False None = Inr (entry C 0 2)
      \<and> APIG_overlap S24 (Some (excite_pairs 15 [0, 2])) C False None = Inr (entry C 0 2)"
    by blast
  then have 2: "AP1roG_overlap S24 (Some 60) C False None = Inr (1 / 10)
      \<and> APIG_overlap S24 (Some 60) C False None = Inr (1 / 10)"
    unfolding S24_values sel by (simp add: C_def X24_def)
  from t have "0 < (1::nat) \<and> 1 < npairs S24 \<and> npairs S24 \<le> 2 \<and> 2 < (3::nat) \<and> 3 < norbs S24
      \<and> excite_pairs 15 [0, 1, 2, 3] \<in> set (pspace S24) \<longrightarrow>
      AP1roG_overlap S24 (Some (excite_pairs 15 [0, 1, 2, 3])) C False None
        = Inr (entry C 0 2 * entry C 1 3 - entry C 0 3 * entry C 1 2)"
    by blast
  then have 3: "AP1roG_overlap S24 (Some 240) C False None = Inr (- (1 / 50))"
    unfolding S24_values sel by (simp add: C_def X24_def)
  from 1 2 3 show ?thesis
    by (simp add: c bind_err_def)
qed

text \<open>
  C1, as stated, fails for the double pair excitation: with two pairs in four orbitals
  and \<open>X = [[0.1, 0.2], [0.3, 0.4]]\<close> the determinant \<open>240\<close> of the projection space gets
  the overlap \<open>0.1 \<sqdot> 0.4 - 0.2 \<sqdot> 0.3 = -0.02\<close> from \<^verbatim>\<open>AP1roG.overlap\<close>, while the
  permanent of the columns \<open>2\<close> and \<open>3\<close> of \<open>I + X\<close>, which is what \<^verbatim>\<open>APIG.overlap\<close>
  returns, is \<open>0.1 \<sqdot> 0.4 + 0.2 \<sqdot> 0.3 = 0.10\<close>.
\<close>

theorem AP1roG_overlap_double_counterexample:
  "240 \<in> set (pspace S24)
   \<and> excite_pairs (AP1roG_base S24) [0, 1, 2, 3] = 240
   \<and> bind_err (AP1roG_coeffs S24 X24) (\<lambda>C. AP1roG_overlap S24 (Some 240) C False None)
       = Inr (- (1 / 50))
   \<and> bind_err (AP1roG_coeffs S24 X24) (\<lambda>C. APIG_overlap S24 (Some 240) C False None)
       = Inr (1 / 10)
   \<and> bind_err (AP1roG_coeffs S24 X24) (\<lambda>C.
         bind_err (take_cols C (filter (is_pair_occupied 240) [0..<norbs S24])) permanent)
       = Inr (1 / 10)"
  by code_simp

end
